theory Spec2Isabelle
  imports Main "HOL-Library.Sublist" "HOL-Library.Multiset" "HOL-Library.Word"
    "HOL-Library.Signed_Division"
begin

section \<open>Strings\<close>

text \<open>
  Go strings are byte sequences; they are modelled as \<open>string\<close> (a list of bytes).
  The functions of package \<open>strings\<close> that the crawler calls are byte-level and are
  written out here. \<open>Cut\<close> is \<open>strings.Cut\<close> for a one-byte separator and returns
  the parts before and after its first occurrence (the whole string and the empty
  string when the separator is absent).
\<close>

definition HasPrefix :: "string \<Rightarrow> string \<Rightarrow> bool" where
  "HasPrefix s pre = prefix pre s"

definition HasSuffix :: "string \<Rightarrow> string \<Rightarrow> bool" where
  "HasSuffix s suf = suffix suf s"

definition TrimSuffix :: "string \<Rightarrow> string \<Rightarrow> string" where
  "TrimSuffix s suf = (if suffix suf s then take (length s - length suf) s else s)"

fun Contains :: "string \<Rightarrow> string \<Rightarrow> bool" where
  "Contains [] sub = (sub = [])"
| "Contains (c # cs) sub = (if prefix sub (c # cs) then True else Contains cs sub)"

definition Cut :: "string \<Rightarrow> char \<Rightarrow> string \<times> string" where
  "Cut s sep = (takeWhile (\<lambda>c. c \<noteq> sep) s, drop 1 (dropWhile (\<lambda>c. c \<noteq> sep) s))"

definition isLower :: "char \<Rightarrow> bool" where
  "isLower c = (97 \<le> (of_char c :: nat) \<and> (of_char c :: nat) \<le> 122)"

definition isUpper :: "char \<Rightarrow> bool" where
  "isUpper c = (65 \<le> (of_char c :: nat) \<and> (of_char c :: nat) \<le> 90)"

definition isDigit :: "char \<Rightarrow> bool" where
  "isDigit c = (48 \<le> (of_char c :: nat) \<and> (of_char c :: nat) \<le> 57)"

section \<open>The standard library's URL package\<close>

text \<open>
  \<open>net/url\<close> and \<open>strings.ToLower\<close> belong to the Go standard library, not to the
  repository. The repository's functions are therefore defined over a record of the
  library functions they call, and every theorem that quantifies over that record holds
  for whatever the installed library does. \<open>URL\<close> is the library's struct with the
  fields of Go 1.24 (\<open>User\<close> is the optional user name with its optional password).
\<close>

record URL =
  Scheme :: string
  Opaque :: string
  User :: "(string \<times> string option) option"
  Host :: string
  Path :: string
  RawPath :: string
  OmitHost :: bool
  ForceQuery :: bool
  RawQuery :: string
  Fragment :: string
  RawFragment :: string

record stdlib =
  url_Parse :: "string \<Rightarrow> URL option"
  url_String :: "URL \<Rightarrow> string"
  url_ResolveReference :: "URL \<Rightarrow> URL \<Rightarrow> URL"
  strings_ToLower :: "string \<Rightarrow> string"

subsection \<open>The library on plain URLs\<close>

text \<open>
  For concrete evaluation the library is instantiated by \<open>go_stdlib\<close>, which follows
  \<open>url.Parse\<close> and \<open>URL.String\<close> of Go 1.24 on \<^emph>\<open>plain\<close> strings: strings made of
  ASCII letters, digits, the marks \<open>- . _ ~\<close> and the delimiters \<open>/ : ? # = &\<close>. On
  such strings the library decodes and encodes nothing except a \<open>#\<close> inside a
  fragment, finds no user information and no bracketed IP literal, so parsing is pure
  splitting. Percent-escapes, \<open>@\<close>, brackets and bytes that the library would escape
  are outside this instance, and it is evaluated on plain strings only.
\<close>

definition plain_char :: "char \<Rightarrow> bool" where
  "plain_char c = (isLower c \<or> isUpper c \<or> isDigit c \<or> c \<in> set ''-._~/:?#=&'')"

definition plain :: "string \<Rightarrow> bool" where
  "plain s = list_all plain_char s"

definition go_ToLower :: "string \<Rightarrow> string" where
  "go_ToLower s = map (\<lambda>c. if isUpper c then char_of (of_char c + (32::nat)) else c) s"

definition stringContainsCTLByte :: "string \<Rightarrow> bool" where
  "stringContainsCTLByte s = list_ex (\<lambda>c. (of_char c :: nat) < 32 \<or> (of_char c :: nat) = 127) s"

text \<open>
  \<open>getScheme\<close> scans \<open>rawURL\<close> from index 0; \<open>schemeScan raw i cs\<close> is the loop at
  index \<open>i\<close> with \<open>cs\<close> the bytes from \<open>i\<close> on. \<open>None\<close> is the error
  "missing protocol scheme".
\<close>

fun schemeScan :: "string \<Rightarrow> nat \<Rightarrow> string \<Rightarrow> (string \<times> string) option" where
  "schemeScan raw i [] = Some ([], raw)"
| "schemeScan raw i (c # cs) =
     (if isLower c \<or> isUpper c then schemeScan raw (Suc i) cs
      else if isDigit c \<or> c = CHR ''+'' \<or> c = CHR ''-'' \<or> c = CHR ''.'' then
        (if i = 0 then Some ([], raw) else schemeScan raw (Suc i) cs)
      else if c = CHR '':'' then
        (if i = 0 then None else Some (take i raw, cs))
      else Some ([], raw))"

definition getScheme :: "string \<Rightarrow> (string \<times> string) option" where
  "getScheme rawURL = schemeScan rawURL 0 rawURL"

definition validOptionalPort :: "string \<Rightarrow> bool" where
  "validOptionalPort port =
     (case port of [] \<Rightarrow> True | c # ds \<Rightarrow> c = CHR '':'' \<and> list_all isDigit ds)"

text \<open>
  \<open>parseHost\<close> without the bracketed form: the text from the last colon on must be a
  valid optional port. \<open>None\<close> is the error "invalid port after host".
\<close>

definition parseHost :: "string \<Rightarrow> string option" where
  "parseHost host =
     (if CHR '':'' \<in> set host then
        (let colonPort = CHR '':'' # rev (takeWhile (\<lambda>c. c \<noteq> CHR '':'') (rev host))
         in if validOptionalPort colonPort then Some host else None)
      else Some host)"

definition emptyURL :: URL where
  "emptyURL = \<lparr>Scheme = [], Opaque = [], User = None, Host = [], Path = [], RawPath = [],
     OmitHost = False, ForceQuery = False, RawQuery = [], Fragment = [], RawFragment = []\<rparr>"

text \<open>
  \<open>go_parse\<close> is the library's internal \<open>parse(rawURL, viaRequest = false)\<close>, applied to
  the text before the first \<open>#\<close>; \<open>None\<close> stands for each of its errors (a control
  byte, a missing scheme, a colon in the first segment of a relative path, an invalid
  port).
\<close>

definition go_parse :: "string \<Rightarrow> URL option" where
  "go_parse rawURL =
     (if stringContainsCTLByte rawURL then None
      else if rawURL = ''*'' then Some (emptyURL\<lparr>Path := ''*''\<rparr>)
      else case getScheme rawURL of
        None \<Rightarrow> None
      | Some (scheme0, rest0) \<Rightarrow>
          (let scheme = go_ToLower scheme0;
               force = (HasSuffix rest0 ''?'' \<and> count_list rest0 (CHR ''?'') = 1);
               rest = (if force then butlast rest0 else fst (Cut rest0 (CHR ''?'')));
               query = (if force then [] else snd (Cut rest0 (CHR ''?'')));
               url = emptyURL\<lparr>Scheme := scheme, ForceQuery := force, RawQuery := query\<rparr>
           in if \<not> HasPrefix rest ''/'' \<and> scheme \<noteq> [] then Some (url\<lparr>Opaque := rest\<rparr>)
              else if \<not> HasPrefix rest ''/'' \<and> Contains (fst (Cut rest (CHR ''/''))) '':'' then None
              else if (scheme \<noteq> [] \<or> \<not> HasPrefix rest ''///'') \<and> HasPrefix rest ''//'' then
                (let authority = takeWhile (\<lambda>c. c \<noteq> CHR ''/'') (drop 2 rest);
                     rest' = dropWhile (\<lambda>c. c \<noteq> CHR ''/'') (drop 2 rest)
                 in case parseHost authority of
                      None \<Rightarrow> None
                    | Some host \<Rightarrow> Some (url\<lparr>Host := host, Path := rest'\<rparr>))
              else if scheme \<noteq> [] \<and> HasPrefix rest ''/'' then
                Some (url\<lparr>OmitHost := True, Path := rest\<rparr>)
              else Some (url\<lparr>Path := rest\<rparr>)))"

definition go_Parse :: "string \<Rightarrow> URL option" where
  "go_Parse rawURL =
     (let u = fst (Cut rawURL (CHR ''#'')); frag = snd (Cut rawURL (CHR ''#''))
      in case go_parse u of
           None \<Rightarrow> None
         | Some url \<Rightarrow>
             if frag = [] then Some url
             else Some (url\<lparr>Fragment := frag,
                    RawFragment := (if CHR ''#'' \<in> set frag then frag else [])\<rparr>))"

text \<open>
  \<open>URL.String\<close> on the values \<open>go_Parse\<close> produces (no user information, no raw
  path). The only byte of a plain fragment that is escaped is \<open>#\<close>.
\<close>

definition escapeFragment :: "string \<Rightarrow> string" where
  "escapeFragment s = concat (map (\<lambda>c. if c = CHR ''#'' then ''%23'' else [c]) s)"

definition go_String :: "URL \<Rightarrow> string" where
  "go_String u =
     (let buf0 = (if Scheme u \<noteq> [] then Scheme u @ '':'' else []);
          buf1 =
            (if Opaque u \<noteq> [] then buf0 @ Opaque u
             else
               (let buf2 =
                      (if Scheme u \<noteq> [] \<or> Host u \<noteq> [] then
                         (if OmitHost u \<and> Host u = [] then buf0
                          else buf0 @ (if Host u \<noteq> [] \<or> Path u \<noteq> [] then ''//'' else []) @ Host u)
                       else buf0);
                    path = Path u;
                    buf3 = (if path \<noteq> [] \<and> hd path \<noteq> CHR ''/'' \<and> Host u \<noteq> []
                            then buf2 @ ''/'' else buf2);
                    buf4 = (if buf3 = [] \<and> Contains (fst (Cut path (CHR ''/''))) '':''
                            then ''./'' else buf3)
                in buf4 @ path));
          buf5 = (if ForceQuery u \<or> RawQuery u \<noteq> [] then buf1 @ ''?'' @ RawQuery u else buf1)
      in if Fragment u \<noteq> [] then buf5 @ ''#'' @ escapeFragment (Fragment u) else buf5)"

text \<open>
  Reference resolution (RFC 3986) is not part of the instance: \<open>FixRelativeURL\<close> calls
  it only for links that do not start with \<open>http://\<close> or \<open>https://\<close>, and the instance
  is evaluated on absolute links only. The field holds the reference unchanged.
\<close>

definition go_stdlib :: stdlib where
  "go_stdlib = \<lparr>url_Parse = go_Parse, url_String = go_String,
     url_ResolveReference = (\<lambda>base ref. ref), strings_ToLower = go_ToLower\<rparr>"

section \<open>utils: URL helpers of the repository\<close>

definition EXCLUDED_EXTENSIONS :: "string list" where
  "EXCLUDED_EXTENSIONS =
     [''.pdf'', ''.doc'', ''.docx'', ''.xls'', ''.xlsx'',
      ''.zip'', ''.rar'', ''.exe'', ''.dmg'', ''.pkg'',
      ''.mp4'', ''.avi'', ''.mov'', ''.mp3'', ''.wav'',
      ''.jpg'', ''.jpeg'', ''.png'', ''.gif'', ''.svg'']"

definition IsValidURL :: "stdlib \<Rightarrow> string \<Rightarrow> string \<Rightarrow> bool" where
  "IsValidURL L urlStr baseURL =
     (if urlStr = [] then False
      else case url_Parse L urlStr of
        None \<Rightarrow> False
      | Some u \<Rightarrow>
          (case url_Parse L baseURL of
             None \<Rightarrow> False
           | Some baseU \<Rightarrow>
               if Host u \<noteq> Host baseU \<or> Scheme u \<noteq> Scheme baseU then False
               else if list_ex (\<lambda>ext. HasSuffix (strings_ToLower L (Path u)) ext) EXCLUDED_EXTENSIONS
                 then False
               else if Contains urlStr ''mailto:'' \<or> Contains urlStr ''tel:''
                       \<or> Contains urlStr ''javascript:'' then False
               else True))"

definition NormalizeURL :: "stdlib \<Rightarrow> string \<Rightarrow> string" where
  "NormalizeURL L urlStr =
     (case url_Parse L urlStr of
        None \<Rightarrow> urlStr
      | Some u \<Rightarrow>
          (let u1 = u\<lparr>Fragment := [], RawQuery := []\<rparr>;
               u2 = (if Path u1 = [] then u1\<lparr>Path := ''/''\<rparr> else u1);
               u3 = u2\<lparr>Path := TrimSuffix (Path u2) ''/''\<rparr>;
               u4 = (if Path u3 = [] then u3\<lparr>Path := ''/''\<rparr> else u3)
           in url_String L u4))"

text \<open>
  What \<open>NormalizeURL\<close> does to the path of a parsed URL, as a function of its own:
  an empty path becomes \<open>/\<close>, one trailing slash is removed, and a path emptied by
  that becomes \<open>/\<close> again.
\<close>

definition normPath :: "string \<Rightarrow> string" where
  "normPath p =
     (let p1 = (if p = [] then ''/'' else p); p2 = TrimSuffix p1 ''/''
      in if p2 = [] then ''/'' else p2)"

definition FixRelativeURL :: "stdlib \<Rightarrow> string \<Rightarrow> string \<Rightarrow> string" where
  "FixRelativeURL L link baseURL =
     (if HasPrefix link ''http://'' \<or> HasPrefix link ''https://'' then link
      else case url_Parse L baseURL of
        None \<Rightarrow> link
      | Some baseU \<Rightarrow>
          (case url_Parse L link of
             None \<Rightarrow> link
           | Some linkU \<Rightarrow> url_String L (url_ResolveReference L baseU linkU)))"

definition ShouldSkipURL :: "stdlib \<Rightarrow> string \<Rightarrow> string list \<Rightarrow> bool" where
  "ShouldSkipURL L urlStr skipPatterns =
     list_ex (\<lambda>pattern. Contains (strings_ToLower L urlStr) (strings_ToLower L pattern)) skipPatterns"

section \<open>models: results, reports and the crawl session\<close>

text \<open>
  Time stamps are opaque integers. \<open>int64\<close> fields are 64-bit words; Go's \<open>int\<close>
  counters and depths are mathematical integers: every counter below is bounded by the
  length of a slice and a depth is only incremented below \<open>MaxDepth\<close>, so none of them
  can wrap.
\<close>

record ScreenshotResult =
  URL :: string
  Filename :: string
  Success :: bool
  Error :: string
  Timestamp :: int
  FileSize :: "64 word"
  Duration :: "64 word"

record Report =
  BaseURL :: string
  TotalPages :: int
  SuccessfulScreenshots :: int
  FailedScreenshots :: int
  Timestamp :: int
  LastUpdate :: "int option"
  NewPagesInThisRun :: int
  TotalDuration :: "64 word"
  AveragePageSize :: "64 word"
  Results :: "ScreenshotResult list"

text \<open>
  A \<open>map[string]bool\<close> in which only \<open>true\<close> is ever stored is a set of strings; a
  lookup of a missing key in \<open>map[string]int\<close> yields 0.
\<close>

record CrawlSession =
  baseURL :: string
  visitedURLs :: "string set"
  discoveredURLs :: "string set"
  existingURLs :: "string set"
  urlQueue :: "string list"
  depthMap :: "string \<rightharpoonup> int"
  results :: "ScreenshotResult list"
  startTime :: int

definition NewCrawlSession :: "string \<Rightarrow> int \<Rightarrow> CrawlSession" where
  "NewCrawlSession base now =
     \<lparr>baseURL = base, visitedURLs = {}, discoveredURLs = {}, existingURLs = {},
      urlQueue = [], depthMap = Map.empty, results = [], startTime = now\<rparr>"

definition AddURL :: "string \<Rightarrow> int \<Rightarrow> CrawlSession \<Rightarrow> CrawlSession" where
  "AddURL url depth cs =
     (if url \<notin> visitedURLs cs \<and> url \<notin> existingURLs cs
      then cs\<lparr>urlQueue := urlQueue cs @ [url], depthMap := (depthMap cs)(url \<mapsto> depth)\<rparr>
      else cs)"

definition MarkVisited :: "string \<Rightarrow> CrawlSession \<Rightarrow> CrawlSession" where
  "MarkVisited url cs = cs\<lparr>visitedURLs := insert url (visitedURLs cs)\<rparr>"

definition MarkExisting :: "string \<Rightarrow> CrawlSession \<Rightarrow> CrawlSession" where
  "MarkExisting url cs = cs\<lparr>existingURLs := insert url (existingURLs cs)\<rparr>"

definition AddResult :: "ScreenshotResult \<Rightarrow> CrawlSession \<Rightarrow> CrawlSession" where
  "AddResult result cs = cs\<lparr>results := results cs @ [result]\<rparr>"

definition GetNextURL :: "CrawlSession \<Rightarrow> (string \<times> int \<times> bool) \<times> CrawlSession" where
  "GetNextURL cs =
     (case urlQueue cs of
        [] \<Rightarrow> (([], 0, False), cs)
      | url # rest \<Rightarrow>
          ((url, (case depthMap cs url of None \<Rightarrow> 0 | Some d \<Rightarrow> d), True),
           cs\<lparr>urlQueue := rest\<rparr>))"

definition IsVisited :: "string \<Rightarrow> CrawlSession \<Rightarrow> bool" where
  "IsVisited url cs = (url \<in> visitedURLs cs)"

definition IsExisting :: "string \<Rightarrow> CrawlSession \<Rightarrow> bool" where
  "IsExisting url cs = (url \<in> existingURLs cs)"

definition GetResults :: "CrawlSession \<Rightarrow> ScreenshotResult list" where
  "GetResults cs = results cs"

section \<open>config\<close>

record Config =
  BaseURL :: string
  MaxDepth :: int
  ParallelWorkers :: int
  ScreenshotDelay :: int
  RequestDelay :: int
  ViewportWidth :: int
  ViewportHeight :: int
  Quality :: int
  CheckSitemap :: bool
  CheckRobots :: bool
  SkipPatterns :: "string list"
  UserAgent :: string
  OutputDir :: string

section \<open>services: the scheduler\<close>

text \<open>
  The browser is an external collaborator. Its two operations are functions of an
  external state \<open>'b\<close> (the browser and the site), which they may change; a failed
  link extraction is \<open>None\<close>.
\<close>

record 'b BrowserService =
  CaptureScreenshot :: "'b \<Rightarrow> string \<Rightarrow> ScreenshotResult \<times> 'b"
  ExtractLinks :: "'b \<Rightarrow> string \<Rightarrow> string list option \<times> 'b"

text \<open>
  The application state: the configuration, the session and the external state.
  \<open>dispatched\<close> is a log kept for the proofs: every call of \<open>CaptureScreenshot\<close>
  appends the URL passed and the depth of the dequeued entry.
\<close>

record 'b AppService =
  config :: Config
  session :: CrawlSession
  world :: 'b
  dispatched :: "(string \<times> int) list"

fun addNewLinksToQueue :: "stdlib \<Rightarrow> Config \<Rightarrow> string list \<Rightarrow> int \<Rightarrow> CrawlSession \<Rightarrow> CrawlSession" where
  "addNewLinksToQueue L cfg [] depth cs = cs"
| "addNewLinksToQueue L cfg (link # links) depth cs =
     (let fixedLink = FixRelativeURL L link (BaseURL cfg) in
      addNewLinksToQueue L cfg links depth
        (if IsValidURL L fixedLink (BaseURL cfg) then
           (let normalizedLink = NormalizeURL L fixedLink in
            if \<not> IsVisited normalizedLink cs \<and> \<not> IsExisting normalizedLink cs then
              (if \<not> ShouldSkipURL L fixedLink (SkipPatterns cfg)
               then AddURL fixedLink depth cs else cs)
            else cs)
         else cs))"

text \<open>
  The test a resolved link passes on its way into the queue: the three guards of
  \<open>addNewLinksToQueue\<close> (valid, normalized form neither visited nor existing, no skip
  pattern) followed by the guard of \<open>AddURL\<close> on the string itself.
\<close>

definition enqueueable :: "stdlib \<Rightarrow> Config \<Rightarrow> CrawlSession \<Rightarrow> string \<Rightarrow> bool" where
  "enqueueable L cfg cs l =
     (IsValidURL L l (BaseURL cfg)
      \<and> NormalizeURL L l \<notin> visitedURLs cs \<and> NormalizeURL L l \<notin> existingURLs cs
      \<and> \<not> ShouldSkipURL L l (SkipPatterns cfg)
      \<and> l \<notin> visitedURLs cs \<and> l \<notin> existingURLs cs)"

text \<open>
  One pass through the body of the loop of \<open>runSequentialCrawl\<close>; \<open>None\<close> is the
  \<open>break\<close> on an empty queue. The pause between pages has no effect on the state.
\<close>

definition seqIteration :: "stdlib \<Rightarrow> 'b BrowserService \<Rightarrow> 'b AppService \<Rightarrow> 'b AppService option" where
  "seqIteration L B a =
     (case GetNextURL (session a) of
        ((url, depth, hasNext), cs) \<Rightarrow>
          if \<not> hasNext then None
          else if depth > MaxDepth (config a) then Some (a\<lparr>session := cs\<rparr>)
          else
            (let normalizedURL = NormalizeURL L url in
             if IsVisited normalizedURL cs then Some (a\<lparr>session := cs\<rparr>)
             else if IsExisting normalizedURL cs then
               Some (a\<lparr>session := MarkVisited normalizedURL cs\<rparr>)
             else if ShouldSkipURL L url (SkipPatterns (config a)) then
               Some (a\<lparr>session := MarkVisited normalizedURL cs\<rparr>)
             else
               (case CaptureScreenshot B (world a) url of
                  (result, w) \<Rightarrow>
                    (let cs1 = AddResult result (MarkVisited normalizedURL cs);
                         a1 = a\<lparr>session := cs1, world := w,
                                dispatched := dispatched a @ [(url, depth)]\<rparr>
                     in if Success result \<and> depth < MaxDepth (config a) then
                          (case ExtractLinks B w url of
                             (None, w') \<Rightarrow> Some (a1\<lparr>world := w'\<rparr>)
                           | (Some links, w') \<Rightarrow>
                               Some (a1\<lparr>world := w',
                                 session := addNewLinksToQueue L (config a) links (depth + 1) cs1\<rparr>))
                        else Some a1))))"

text \<open>
  \<open>runSequentialCrawl n\<close> is the loop observed for at most \<open>n\<close> iterations: the
  state after \<open>n\<close> passes, or the final state when the queue ran empty before. A
  property of it for every \<open>n\<close> holds at every point of every run, finished or not.
\<close>

fun runSequentialCrawl :: "nat \<Rightarrow> stdlib \<Rightarrow> 'b BrowserService \<Rightarrow> 'b AppService \<Rightarrow> 'b AppService" where
  "runSequentialCrawl 0 L B a = a"
| "runSequentialCrawl (Suc n) L B a =
     (case seqIteration L B a of None \<Rightarrow> a | Some a' \<Rightarrow> runSequentialCrawl n L B a')"

subsection \<open>The parallel crawl as interleaved steps\<close>

text \<open>
  \<open>runParallelCrawl\<close> starts one goroutine per eligible URL and one collector for the
  results channel. The model interleaves their steps. A task is the goroutine started
  for \<open>(pageURL, pageDepth)\<close>; its phase says how far it has come: started and waiting
  for the semaphore, holding the semaphore, back from \<open>CaptureScreenshot\<close> with the
  result still to be sent, result sent, and finished (links handled, semaphore released,
  wait group signalled). The main goroutine is in its loop, in \<open>wg.Wait()\<close>, or has
  returned. Each step is one of the source's operations on the shared session taken as
  a whole; finer interleavings of two session methods are not distinguished.
\<close>

datatype phase = Spawned | Acquired | Captured ScreenshotResult | Sent ScreenshotResult | Finished

record task =
  pageURL :: string
  pageDepth :: int
  phase :: phase

datatype mainpc = Looping | Waiting | Returned

record 'b ParallelCrawl =
  app :: "'b AppService"
  tasks :: "task list"
  resultsChan :: "ScreenshotResult list"
  mainpc :: mainpc

datatype event = MainIter | MainWait | Acquire nat | Capture nat | Send nat | Links nat | Collect

definition holdsSemaphore :: "task \<Rightarrow> bool" where
  "holdsSemaphore t = (case phase t of Spawned \<Rightarrow> False | Finished \<Rightarrow> False | _ \<Rightarrow> True)"

definition mainIteration :: "stdlib \<Rightarrow> 'b ParallelCrawl \<Rightarrow> 'b ParallelCrawl" where
  "mainIteration L s =
     (let a = app s in
      case GetNextURL (session a) of
        ((url, depth, hasNext), cs) \<Rightarrow>
          if \<not> hasNext then s\<lparr>mainpc := Waiting\<rparr>
          else if depth > MaxDepth (config a) then s\<lparr>app := a\<lparr>session := cs\<rparr>\<rparr>
          else
            (let normalizedURL = NormalizeURL L url in
             if IsVisited normalizedURL cs \<or> IsExisting normalizedURL cs then
               s\<lparr>app := a\<lparr>session := cs\<rparr>\<rparr>
             else if ShouldSkipURL L url (SkipPatterns (config a)) then
               s\<lparr>app := a\<lparr>session := cs\<rparr>\<rparr>
             else s\<lparr>app := a\<lparr>session := MarkVisited normalizedURL cs\<rparr>,
                    tasks := tasks s @ [\<lparr>pageURL = url, pageDepth = depth, phase = Spawned\<rparr>]\<rparr>))"

definition taskLinks :: "stdlib \<Rightarrow> 'b BrowserService \<Rightarrow> task \<Rightarrow> ScreenshotResult \<Rightarrow> 'b AppService \<Rightarrow> 'b AppService" where
  "taskLinks L B t result a =
     (if Success result \<and> pageDepth t < MaxDepth (config a) then
        (case ExtractLinks B (world a) (pageURL t) of
           (None, w') \<Rightarrow> a\<lparr>world := w'\<rparr>
         | (Some links, w') \<Rightarrow>
             a\<lparr>world := w',
               session := addNewLinksToQueue L (config a) links (pageDepth t + 1) (session a)\<rparr>)
      else a)"

text \<open>
  \<open>parStep\<close> is \<open>None\<close> when the event cannot happen in the state: the goroutine is
  not at that point, the semaphore has no free slot, the channel buffer of 100 is full
  or empty, or \<open>wg.Wait()\<close> still has unfinished tasks to wait for.
\<close>

definition parStep :: "stdlib \<Rightarrow> 'b BrowserService \<Rightarrow> event \<Rightarrow> 'b ParallelCrawl \<Rightarrow> 'b ParallelCrawl option" where
  "parStep L B e s =
     (case e of
        MainIter \<Rightarrow> if mainpc s = Looping then Some (mainIteration L s) else None
      | MainWait \<Rightarrow>
          if mainpc s = Waiting \<and> list_all (\<lambda>t. phase t = Finished) (tasks s)
          then Some (s\<lparr>mainpc := Returned\<rparr>) else None
      | Acquire i \<Rightarrow>
          if i < length (tasks s) \<and> phase (tasks s ! i) = Spawned
             \<and> int (length (filter holdsSemaphore (tasks s))) < ParallelWorkers (config (app s))
          then Some (s\<lparr>tasks := (tasks s)[i := (tasks s ! i)\<lparr>phase := Acquired\<rparr>]\<rparr>) else None
      | Capture i \<Rightarrow>
          if i < length (tasks s) \<and> phase (tasks s ! i) = Acquired then
            (let t = tasks s ! i; a = app s in
             case CaptureScreenshot B (world a) (pageURL t) of
               (result, w) \<Rightarrow>
                 Some (s\<lparr>app := a\<lparr>world := w,
                            dispatched := dispatched a @ [(pageURL t, pageDepth t)]\<rparr>,
                         tasks := (tasks s)[i := t\<lparr>phase := Captured result\<rparr>]\<rparr>))
          else None
      | Send i \<Rightarrow>
          if i < length (tasks s) \<and> length (resultsChan s) < 100 then
            (case phase (tasks s ! i) of
               Captured result \<Rightarrow>
                 Some (s\<lparr>resultsChan := resultsChan s @ [result],
                         tasks := (tasks s)[i := (tasks s ! i)\<lparr>phase := Sent result\<rparr>]\<rparr>)
             | _ \<Rightarrow> None)
          else None
      | Links i \<Rightarrow>
          if i < length (tasks s) then
            (case phase (tasks s ! i) of
               Sent result \<Rightarrow>
                 Some (s\<lparr>app := taskLinks L B (tasks s ! i) result (app s),
                         tasks := (tasks s)[i := (tasks s ! i)\<lparr>phase := Finished\<rparr>]\<rparr>)
             | _ \<Rightarrow> None)
          else None
      | Collect \<Rightarrow>
          (case resultsChan s of
             [] \<Rightarrow> None
           | result # rest \<Rightarrow>
               Some (s\<lparr>app := (app s)\<lparr>session := AddResult result (session (app s))\<rparr>,
                       resultsChan := rest\<rparr>)))"

text \<open>
  A schedule is a list of events. \<open>runParallelCrawl\<close> follows it from the state in which
  the loop starts and skips an event that cannot happen, so it reaches exactly the
  states of the interleavings and is defined for every schedule. \<open>parTrace\<close> follows
  a schedule strictly and is \<open>None\<close> when one of its events cannot happen.
\<close>

definition parStart :: "'b AppService \<Rightarrow> 'b ParallelCrawl" where
  "parStart a = \<lparr>app = a, tasks = [], resultsChan = [], mainpc = Looping\<rparr>"

definition parExec :: "stdlib \<Rightarrow> 'b BrowserService \<Rightarrow> event \<Rightarrow> 'b ParallelCrawl \<Rightarrow> 'b ParallelCrawl" where
  "parExec L B e s = (case parStep L B e s of None \<Rightarrow> s | Some s' \<Rightarrow> s')"

fun parRun :: "stdlib \<Rightarrow> 'b BrowserService \<Rightarrow> event list \<Rightarrow> 'b ParallelCrawl \<Rightarrow> 'b ParallelCrawl" where
  "parRun L B [] s = s"
| "parRun L B (e # es) s = parRun L B es (parExec L B e s)"

definition runParallelCrawl :: "event list \<Rightarrow> stdlib \<Rightarrow> 'b BrowserService \<Rightarrow> 'b AppService \<Rightarrow> 'b ParallelCrawl" where
  "runParallelCrawl es L B a = parRun L B es (parStart a)"

fun parTrace :: "stdlib \<Rightarrow> 'b BrowserService \<Rightarrow> event list \<Rightarrow> 'b ParallelCrawl \<Rightarrow> 'b ParallelCrawl option" where
  "parTrace L B [] s = Some s"
| "parTrace L B (e # es) s =
     (case parStep L B e s of None \<Rightarrow> None | Some s' \<Rightarrow> parTrace L B es s')"

subsection \<open>Invariants of the two schedulers\<close>

text \<open>
  A dispatched entry is eligible when its depth is within \<open>MaxDepth\<close> and its URL
  matches no skip pattern. \<open>seqInv\<close> says of the log of the sequential crawl: the
  normalized forms of the logged URLs are pairwise different, each is in \<open>visitedURLs\<close>,
  and each entry is eligible. In the parallel crawl a task is pending while it has not
  yet called \<open>CaptureScreenshot\<close>; \<open>started\<close> lists the calls made and the calls the
  pending tasks are going to make, and \<open>parInv\<close> says of it what \<open>seqInv\<close> says of
  the log.
\<close>

definition pending :: "task \<Rightarrow> bool" where
  "pending t = (phase t = Spawned \<or> phase t = Acquired)"

definition eligible :: "stdlib \<Rightarrow> Config \<Rightarrow> string \<times> int \<Rightarrow> bool" where
  "eligible L cfg p = (snd p \<le> MaxDepth cfg \<and> \<not> ShouldSkipURL L (fst p) (SkipPatterns cfg))"

definition seqInv :: "stdlib \<Rightarrow> 'b AppService \<Rightarrow> bool" where
  "seqInv L a =
     (distinct (map (\<lambda>p. NormalizeURL L (fst p)) (dispatched a))
      \<and> list_all (\<lambda>p. NormalizeURL L (fst p) \<in> visitedURLs (session a)) (dispatched a)
      \<and> list_all (eligible L (config a)) (dispatched a))"

definition started :: "'b ParallelCrawl \<Rightarrow> (string \<times> int) list" where
  "started s = dispatched (app s) @ map (\<lambda>t. (pageURL t, pageDepth t)) (filter pending (tasks s))"

definition parInv :: "stdlib \<Rightarrow> 'b ParallelCrawl \<Rightarrow> bool" where
  "parInv L s =
     (distinct (map (\<lambda>p. NormalizeURL L (fst p)) (started s))
      \<and> list_all (\<lambda>p. NormalizeURL L (fst p) \<in> visitedURLs (session (app s))) (started s)
      \<and> list_all (eligible L (config (app s))) (started s))"

text \<open>The state in which a crawl starts: nothing dispatched yet.\<close>

abbreviation crawlStart :: "Config \<Rightarrow> CrawlSession \<Rightarrow> 'b \<Rightarrow> 'b AppService" where
  "crawlStart cfg cs w \<equiv> \<lparr>config = cfg, session = cs, world = w, dispatched = []\<rparr>"

section \<open>services: the report\<close>

text \<open>
  The loop of \<open>GenerateReport\<close> over all results, with its four accumulators
  \<open>(successCount, failCount, totalDuration, totalFileSize)\<close>.
\<close>

fun tally :: "ScreenshotResult list \<Rightarrow> int \<times> int \<times> 64 word \<times> 64 word \<Rightarrow> int \<times> int \<times> 64 word \<times> 64 word" where
  "tally [] acc = acc"
| "tally (result # rest) (successCount, failCount, totalDuration, totalFileSize) =
     tally rest
       (if Success result then successCount + 1 else successCount,
        if \<not> Success result then failCount + 1 else failCount,
        totalDuration + Duration result,
        if Success result then totalFileSize + FileSize result else totalFileSize)"

text \<open>
  \<open>GenerateReport\<close> returns the report the source builds and then hands to
  \<open>saveJSONReport\<close> and \<open>generateSummary\<close>; \<open>timestamp\<close> is the clock at that moment.
  \<open>int64(successCount)\<close> is the conversion to a word, and \<open>/\<close> on \<open>int64\<close>
  (\<open>div_int64\<close>) truncates towards zero.
\<close>

definition div_int64 :: "64 word \<Rightarrow> 64 word \<Rightarrow> 64 word" where
  "div_int64 a b = word_of_int (sint a sdiv sint b)"

definition GenerateReport :: "Config \<Rightarrow> int \<Rightarrow> CrawlSession \<Rightarrow> Report option \<Rightarrow> Report" where
  "GenerateReport cfg timestamp sess existingReport =
     (let sessionResults = GetResults sess;
          allResults = (case existingReport of None \<Rightarrow> [] | Some rep \<Rightarrow> Results rep) @ sessionResults
      in case tally allResults (0, 0, 0, 0) of
           (successCount, failCount, totalDuration, totalFileSize) \<Rightarrow>
             \<lparr>Report.BaseURL = Config.BaseURL cfg,
              TotalPages = int (length allResults),
              SuccessfulScreenshots = successCount,
              FailedScreenshots = failCount,
              Report.Timestamp = timestamp,
              LastUpdate = (if length sessionResults > 0 then Some timestamp else None),
              NewPagesInThisRun = int (length sessionResults),
              TotalDuration = totalDuration,
              AveragePageSize =
                (if successCount > 0 then div_int64 totalFileSize (word_of_int successCount) else 0),
              Results = allResults\<rparr>)"

section \<open>Concrete inputs\<close>

text \<open>Small configurations, results and sessions on which the theorems are evaluated.\<close>

definition result_of :: "string \<Rightarrow> bool \<Rightarrow> 64 word \<Rightarrow> ScreenshotResult" where
  "result_of u ok sz = \<lparr>URL = u, Filename = [], Success = ok, Error = [],
     ScreenshotResult.Timestamp = 0, FileSize = sz, Duration = 0\<rparr>"

definition demoConfig :: Config where
  "demoConfig = \<lparr>BaseURL = ''http://a.com'', MaxDepth = 5, ParallelWorkers = 2,
     ScreenshotDelay = 3, RequestDelay = 1, ViewportWidth = 1920, ViewportHeight = 1080,
     Quality = 90, CheckSitemap = True, CheckRobots = True, SkipPatterns = [''/wp-admin''],
     UserAgent = [], OutputDir = ''screenshots''\<rparr>"

definition demoSession :: CrawlSession where
  "demoSession = (NewCrawlSession ''http://a.com'' 0)\<lparr>results :=
     [result_of ''http://a.com/'' True 10, result_of ''http://a.com/b'' False 100,
      result_of ''http://a.com/c'' True 5]\<rparr>"

text \<open>
  A browser whose captures all succeed and that finds two links on the start page, one
  of them under \<open>/wp-admin\<close>; and the application state in which the crawl of
  \<open>http://a.com\<close> starts with one URL queued at a given depth.
\<close>

definition demoBrowser :: "unit BrowserService" where
  "demoBrowser = \<lparr>CaptureScreenshot = (\<lambda>w url. (result_of url True 10, w)),
     ExtractLinks = (\<lambda>w url.
       (if url = ''http://a.com''
        then Some [''http://a.com/about'', ''http://a.com/wp-admin/login''] else Some [], w))\<rparr>"

definition demoApp :: "string \<Rightarrow> int \<Rightarrow> unit AppService" where
  "demoApp url depth = \<lparr>config = demoConfig,
     session = AddURL url depth (NewCrawlSession ''http://a.com'' 0), world = (), dispatched = []\<rparr>"

text \<open>
  The same start state after \<open>http://a.com/\<close>, the normalized form of the queued
  URL, has been marked visited.
\<close>

definition demoRevisit :: "unit AppService" where
  "demoRevisit = (demoApp ''http://a.com'' 0)\<lparr>session :=
     MarkVisited ''http://a.com/'' (session (demoApp ''http://a.com'' 0))\<rparr>"

text \<open>
  A browser over a fixed link graph: every capture succeeds and \<open>ExtractLinks\<close>
  returns the links the graph gives for the page.
\<close>

definition siteBrowser :: "(string \<Rightarrow> string list) \<Rightarrow> unit BrowserService" where
  "siteBrowser site = \<lparr>CaptureScreenshot = (\<lambda>w url. (result_of url True 10, w)),
     ExtractLinks = (\<lambda>w url. (Some (site url), w))\<rparr>"

text \<open>
  A site whose start page links to \<open>/a\<close> and \<open>/b\<close> and whose page \<open>/b\<close>
  links to \<open>/d\<close>; the links of \<open>/a\<close> are a parameter. The crawl of it starts at
  depth 0 with \<open>MaxDepth = 2\<close>.
\<close>

definition diamondSite :: "string list \<Rightarrow> string \<Rightarrow> string list" where
  "diamondSite aLinks url =
     (if url = ''http://a.com'' then [''http://a.com/a'', ''http://a.com/b'']
      else if url = ''http://a.com/a'' then aLinks
      else if url = ''http://a.com/b'' then [''http://a.com/d'']
      else [])"

definition depth2App :: "unit AppService" where
  "depth2App = \<lparr>config = demoConfig\<lparr>MaxDepth := 2\<rparr>,
     session = AddURL ''http://a.com'' 0 (NewCrawlSession ''http://a.com'' 0), world = (),
     dispatched = []\<rparr>"

text \<open>
  A site whose start page links to \<open>/x/\<close> and to \<open>/x//\<close>, in this order.
\<close>

definition slashSite :: "string \<Rightarrow> string list" where
  "slashSite url =
     (if url = ''http://a.com'' then [''http://a.com/x/'', ''http://a.com/x//''] else [])"

section \<open>Properties\<close>

lemma tally_eq:
  "tally rs (s, f, d, z) =
     (s + int (length (filter Success rs)),
      f + int (length (filter (\<lambda>r. \<not> Success r) rs)),
      d + sum_list (map Duration rs),
      z + sum_list (map FileSize (filter Success rs)))"
  by (induction rs arbitrary: s f d z) (simp_all add: algebra_simps)

lemma Results_GenerateReport:
  "Results (GenerateReport cfg now sess ex) =
     (case ex of None \<Rightarrow> [] | Some rep \<Rightarrow> Results rep) @ GetResults sess"
  by (simp add: GenerateReport_def Let_def tally_eq)

text \<open>
  Claim C7. Without a previous report the merged report's \<open>Results\<close> are exactly the
  results recorded in the session during this run; with one they are the previous
  report's \<open>Results\<close> followed by this run's, in order, nothing removed and nothing
  deduplicated; and \<open>NewPagesInThisRun\<close> is the number of results of this run,
  whatever the merged total.
\<close>

theorem C7_report_merge:
  "Results (GenerateReport cfg now sess None) = results sess
   \<and> Results (GenerateReport cfg now sess (Some prev)) = Results prev @ results sess
   \<and> NewPagesInThisRun (GenerateReport cfg now sess ex) = int (length (results sess))"
  by (simp add: Results_GenerateReport GetResults_def)
     (simp add: GenerateReport_def GetResults_def Let_def tally_eq)

lemma sdiv_remainder_bound:
  fixes a b :: int
  assumes "0 < b"
  shows "\<bar>a - (a sdiv b) * b\<bar> < b"
proof -
  have "a - (a sdiv b) * b = a smod b"
    by (rule minus_sdiv_mult_eq_smod)
  moreover have "\<bar>a smod b\<bar> = \<bar>a\<bar> mod b"
    using assms by (cases "a = 0") (simp_all add: signed_modulo_int_def abs_mult)
  moreover have "\<bar>a\<bar> mod b < b"
    using assms by simp
  ultimately show ?thesis by simp
qed

lemma sdiv_between:
  fixes a b :: int
  assumes "0 < b"
  shows "min a 0 \<le> a sdiv b \<and> a sdiv b \<le> max a 0"
proof -
  have le: "\<bar>a\<bar> div b \<le> \<bar>a\<bar>"
    using zdiv_mono2 [of "\<bar>a\<bar>" 1 b] assms by simp
  have ge: "0 \<le> \<bar>a\<bar> div b"
    using assms by (simp add: pos_imp_zdiv_nonneg_iff)
  have eq: "a sdiv b = sgn a * (\<bar>a\<bar> div b)"
    using assms by (simp add: signed_divide_int_def)
  show ?thesis
  proof (cases "0 \<le> a")
    case True
    then show ?thesis using le ge eq by (cases "a = 0") simp_all
  next
    case False
    then show ?thesis using le ge eq by simp
  qed
qed

lemma sint_div_int64:
  assumes "0 < n" "n < 2 ^ 63"
  shows "sint (div_int64 t (word_of_int n)) = sint t sdiv n"
proof -
  have n: "signed_take_bit 63 n = n"
    using assms by (simp add: signed_take_bit_int_eq_self)
  have "min (sint t) 0 \<le> sint t sdiv n \<and> sint t sdiv n \<le> max (sint t) 0"
    using assms by (simp add: sdiv_between)
  moreover have "- (2 ^ 63) \<le> sint t" "sint t < 2 ^ 63"
    using sint_ge [of t] sint_lt [of t] by simp_all
  ultimately have "- (2 ^ 63) \<le> sint t sdiv n" "sint t sdiv n < 2 ^ 63"
    by linarith+
  then show ?thesis
    by (simp add: div_int64_def n sint_sbintrunc' signed_take_bit_int_eq_self)
qed

text \<open>
  Claim C8. \<open>AveragePageSize\<close> is the truncating quotient of the sizes of the
  successful entries, summed in \<open>int64\<close>, by their number, and 0 when there is none.
  So \<open>AveragePageSize * successCount\<close> differs from that total by less than
  \<open>successCount\<close>, and is 0 when \<open>successCount\<close> is 0. The number of entries is below
  \<open>2^63\<close>, as the length of every Go slice is.
\<close>

theorem C8_average_page_size:
  assumes "length (filter Success (Results (GenerateReport cfg now sess ex))) < 2 ^ 63"
  shows "(let rep = GenerateReport cfg now sess ex;
              successes = filter Success (Results rep);
              successCount = int (length successes);
              totalFileSize = sum_list (map FileSize successes)
          in SuccessfulScreenshots rep = successCount
             \<and> AveragePageSize rep =
                 (if successCount = 0 then 0 else div_int64 totalFileSize (word_of_int successCount))
             \<and> (if successCount = 0 then sint (AveragePageSize rep) * successCount = 0
                 else sint (AveragePageSize rep) = sint totalFileSize sdiv successCount
                      \<and> \<bar>sint totalFileSize - sint (AveragePageSize rep) * successCount\<bar> < successCount))"
proof -
  define allResults where "allResults = (case ex of None \<Rightarrow> [] | Some rep \<Rightarrow> Results rep) @ GetResults sess"
  define n where "n = int (length (filter Success allResults))"
  define t where "t = sum_list (map FileSize (filter Success allResults))"
  have res: "Results (GenerateReport cfg now sess ex) = allResults"
    by (simp add: Results_GenerateReport allResults_def)
  have cnt: "SuccessfulScreenshots (GenerateReport cfg now sess ex) = n"
    unfolding GenerateReport_def Let_def allResults_def [symmetric] tally_eq
      n_def [symmetric] t_def [symmetric] by simp
  have nonneg: "0 \<le> n"
    by (simp add: n_def)
  have "AveragePageSize (GenerateReport cfg now sess ex) =
      (if 0 < n then div_int64 t (word_of_int n) else 0)"
    unfolding GenerateReport_def Let_def allResults_def [symmetric] tally_eq
      n_def [symmetric] t_def [symmetric] by simp
  then have avg: "AveragePageSize (GenerateReport cfg now sess ex) =
      (if n = 0 then 0 else div_int64 t (word_of_int n))"
    using nonneg by (cases "n = 0") simp_all
  have bound: "n < 2 ^ 63"
    using assms by (simp add: res n_def)
  have pos: "n \<noteq> 0 \<Longrightarrow> 0 < n"
    using nonneg by simp
  have quot: "n \<noteq> 0 \<Longrightarrow> sint (div_int64 t (word_of_int n)) = sint t sdiv n"
    using pos bound by (simp add: sint_div_int64)
  have rem: "n \<noteq> 0 \<Longrightarrow> \<bar>sint t - (sint t sdiv n) * n\<bar> < n"
    using pos by (simp add: sdiv_remainder_bound)
  show ?thesis
    unfolding Let_def res
    using cnt avg quot rem by (simp add: n_def [symmetric] t_def [symmetric])
qed


theorem C8_average_page_size_witness:
  "length (filter Success (Results (GenerateReport demoConfig 0 demoSession None))) < 2 ^ 63
   \<and> SuccessfulScreenshots (GenerateReport demoConfig 0 demoSession None) = 2
   \<and> AveragePageSize (GenerateReport demoConfig 0 demoSession None) = 7
   \<and> \<bar>sint (15 :: 64 word) - sint (7 :: 64 word) * 2\<bar> < (2 :: int)"
proof -
  have res: "Results (GenerateReport demoConfig 0 demoSession None) =
      [result_of ''http://a.com/'' True 10, result_of ''http://a.com/b'' False 100,
       result_of ''http://a.com/c'' True 5]"
    by (simp add: Results_GenerateReport GetResults_def demoSession_def)
  have h: "length (filter Success (Results (GenerateReport demoConfig 0 demoSession None))) < 2 ^ 63"
    by (simp add: res result_of_def)
  have avg: "div_int64 15 (word_of_int 2) = 7"
    by (simp add: div_int64_def signed_divide_int_def)
  show ?thesis
    using C8_average_page_size [OF h] h avg
    by (simp add: Let_def res result_of_def)
qed

lemma AddURL_sets [simp]:
  "visitedURLs (AddURL u d cs) = visitedURLs cs" "existingURLs (AddURL u d cs) = existingURLs cs"
  by (simp_all add: AddURL_def)

text \<open>
  Claim C4. The depth of a URL is meant to be the one it was first enqueued with. The
  code does not keep it: \<open>AddURL\<close> overwrites \<open>depthMap\<close> at every accepted enqueue,
  also for a URL that is still waiting in the queue, so a URL enqueued at depth 1 and
  then at depth 3 is dequeued with depth 3. In a crawl with \<open>MaxDepth = 2\<close> of a site
  whose start page links to \<open>/a\<close> and \<open>/b\<close>, where \<open>/a\<close> links to \<open>/b\<close> too and
  \<open>/b\<close> links to \<open>/d\<close>, the page \<open>/b\<close>, one link away from the start page, is
  captured at depth 2, its links are not followed, and the queue drains without \<open>/d\<close>
  ever being captured. On the same site without the link from \<open>/a\<close> to \<open>/b\<close> the
  page \<open>/b\<close> is captured at depth 1 and \<open>/d\<close> at depth 2.
\<close>

theorem C4_requeue_overwrites_depth:
  "fst (GetNextURL (AddURL ''http://a.com/p'' 3 (AddURL ''http://a.com/p'' 1
      (NewCrawlSession ''http://a.com'' 0)))) = (''http://a.com/p'', 3, True)
   \<and> dispatched (runSequentialCrawl 6 go_stdlib (siteBrowser (diamondSite [''http://a.com/b''])) depth2App)
       = [(''http://a.com'', 0), (''http://a.com/a'', 1), (''http://a.com/b'', 2)]
   \<and> urlQueue (session (runSequentialCrawl 6 go_stdlib
         (siteBrowser (diamondSite [''http://a.com/b''])) depth2App)) = []
   \<and> dispatched (runSequentialCrawl 6 go_stdlib (siteBrowser (diamondSite [])) depth2App)
       = [(''http://a.com'', 0), (''http://a.com/a'', 1), (''http://a.com/b'', 1),
          (''http://a.com/d'', 2)]"
  by code_simp

text \<open>
  Claim C10. \<open>NormalizeURL\<close> is a total function that returns a string for every
  input, and an input the library fails to parse is returned unchanged, so it is its own
  key in the membership checks of the session.
\<close>

theorem C10_unparsed_url_is_own_identity:
  assumes "url_Parse L u = None"
  shows "NormalizeURL L u = u
     \<and> IsVisited (NormalizeURL L u) cs = IsVisited u cs
     \<and> IsExisting (NormalizeURL L u) cs = IsExisting u cs"
  using assms by (simp add: NormalizeURL_def)

theorem C10_unparsed_url_is_own_identity_witness:
  "url_Parse go_stdlib '':foo'' = None \<and> NormalizeURL go_stdlib '':foo'' = '':foo''"
proof -
  have h: "url_Parse go_stdlib '':foo'' = None"
    by code_simp
  show ?thesis
    using C10_unparsed_url_is_own_identity [OF h] h by simp
qed

lemma addNewLinksToQueue_sets [simp]:
  "visitedURLs (addNewLinksToQueue L cfg links depth cs) = visitedURLs cs"
  "existingURLs (addNewLinksToQueue L cfg links depth cs) = existingURLs cs"
  by (induction links arbitrary: cs) (simp_all add: Let_def)

lemma enqueueable_cong:
  "visitedURLs cs' = visitedURLs cs \<Longrightarrow> existingURLs cs' = existingURLs cs \<Longrightarrow>
   enqueueable L cfg cs' = enqueueable L cfg cs"
  by (rule ext) (simp add: enqueueable_def)

lemma addNewLinksToQueue_queue:
  "urlQueue (addNewLinksToQueue L cfg links depth cs) =
     urlQueue cs @ filter (enqueueable L cfg cs) (map (\<lambda>link. FixRelativeURL L link (BaseURL cfg)) links)"
proof (induction links arbitrary: cs)
  case Nil
  then show ?case by simp
next
  case (Cons link links)
  show ?case
    by (simp add: Cons.IH Let_def enqueueable_cong [of "AddURL _ _ cs" cs])
       (auto simp: enqueueable_def AddURL_def IsVisited_def IsExisting_def)
qed

text \<open>
  Claim C2, as amended. \<open>AddURL\<close> does not normalize: it is a no-op exactly when the
  URL string as given is in \<open>visitedURLs\<close> or \<open>existingURLs\<close>, and otherwise appends
  the string to the queue and records its depth. The check on the normalized form is
  made by the caller \<open>addNewLinksToQueue\<close>: the links it appends are, in order, the
  resolved links that are valid, whose normalized form is neither visited nor existing,
  that match no skip pattern, and that pass the check of \<open>AddURL\<close> on the string
  itself.
\<close>

theorem C2_enqueue_checks_raw_url:
  "AddURL url depth cs =
     (if url \<in> visitedURLs cs \<or> url \<in> existingURLs cs then cs
      else cs\<lparr>urlQueue := urlQueue cs @ [url], depthMap := (depthMap cs)(url \<mapsto> depth)\<rparr>)
   \<and> urlQueue (addNewLinksToQueue L cfg links depth cs) =
       urlQueue cs @ filter (enqueueable L cfg cs)
         (map (\<lambda>link. FixRelativeURL L link (BaseURL cfg)) links)"
  by (simp add: addNewLinksToQueue_queue) (simp add: AddURL_def)

text \<open>
  The claim as stated fails: with the normalized form \<open>http://a.com/page\<close> of
  \<open>http://a.com/page/\<close> already visited, \<open>AddURL\<close> still enqueues
  \<open>http://a.com/page/\<close>.
\<close>

theorem C2_enqueue_normalizes_counterexample:
  "NormalizeURL go_stdlib ''http://a.com/page/''
     \<in> visitedURLs (MarkVisited ''http://a.com/page'' (NewCrawlSession ''http://a.com'' 0))
   \<and> urlQueue (MarkVisited ''http://a.com/page'' (NewCrawlSession ''http://a.com'' 0)) = []
   \<and> urlQueue (AddURL ''http://a.com/page/'' 1
        (MarkVisited ''http://a.com/page'' (NewCrawlSession ''http://a.com'' 0)))
      = [''http://a.com/page/'']"
proof -
  have n: "NormalizeURL go_stdlib ''http://a.com/page/'' = ''http://a.com/page''"
    by code_simp
  show ?thesis
    by (simp add: n MarkVisited_def NewCrawlSession_def AddURL_def)
qed


subsection \<open>The schedulers\<close>

lemma addNewLinksToQueue_results [simp]:
  "results (addNewLinksToQueue L cfg links depth cs) = results cs"
  by (induction links arbitrary: cs) (simp_all add: Let_def AddURL_def)

text \<open>What one pass of the sequential loop does to the log and the visited set.\<close>

lemma seqIteration_effect:
  assumes "seqIteration L B a = Some a'"
  shows "config a' = config a \<and>
     ((dispatched a' = dispatched a \<and> visitedURLs (session a) \<subseteq> visitedURLs (session a'))
      \<or> (\<exists>url depth. dispatched a' = dispatched a @ [(url, depth)]
            \<and> NormalizeURL L url \<notin> visitedURLs (session a)
            \<and> visitedURLs (session a') = insert (NormalizeURL L url) (visitedURLs (session a))
            \<and> eligible L (config a) (url, depth)))"
  using assms
  by (auto simp: seqIteration_def GetNextURL_def Let_def MarkVisited_def AddResult_def
      IsVisited_def IsExisting_def eligible_def
      split: list.splits prod.splits if_splits option.splits)

lemma seqInv_step:
  assumes "seqIteration L B a = Some a'" and "seqInv L a"
  shows "seqInv L a'"
proof -
  from seqIteration_effect [OF assms(1)]
  have cfg: "config a' = config a"
    and eff: "(dispatched a' = dispatched a \<and> visitedURLs (session a) \<subseteq> visitedURLs (session a'))
      \<or> (\<exists>url depth. dispatched a' = dispatched a @ [(url, depth)]
            \<and> NormalizeURL L url \<notin> visitedURLs (session a)
            \<and> visitedURLs (session a') = insert (NormalizeURL L url) (visitedURLs (session a))
            \<and> eligible L (config a) (url, depth))"
    by simp_all
  from eff show ?thesis
  proof
    assume "dispatched a' = dispatched a \<and> visitedURLs (session a) \<subseteq> visitedURLs (session a')"
    then show ?thesis
      using assms(2) cfg by (auto simp: seqInv_def list_all_iff)
  next
    assume "\<exists>url depth. dispatched a' = dispatched a @ [(url, depth)]
            \<and> NormalizeURL L url \<notin> visitedURLs (session a)
            \<and> visitedURLs (session a') = insert (NormalizeURL L url) (visitedURLs (session a))
            \<and> eligible L (config a) (url, depth)"
    then obtain url depth where d: "dispatched a' = dispatched a @ [(url, depth)]"
      and fresh: "NormalizeURL L url \<notin> visitedURLs (session a)"
      and vis: "visitedURLs (session a') = insert (NormalizeURL L url) (visitedURLs (session a))"
      and el: "eligible L (config a) (url, depth)"
      by blast
    have old: "\<forall>p\<in>set (dispatched a). NormalizeURL L (fst p) \<in> visitedURLs (session a)"
      using assms(2) by (simp add: seqInv_def list_all_iff)
    have "NormalizeURL L url \<notin> (\<lambda>p. NormalizeURL L (fst p)) ` set (dispatched a)"
      using old fresh by auto
    then have "distinct (map (\<lambda>p. NormalizeURL L (fst p)) (dispatched a'))"
      using assms(2) by (simp add: d seqInv_def)
    moreover have "list_all (\<lambda>p. NormalizeURL L (fst p) \<in> visitedURLs (session a')) (dispatched a')"
      using old by (simp add: d vis list_all_iff)
    moreover have "list_all (eligible L (config a')) (dispatched a')"
      using assms(2) el by (simp add: d cfg seqInv_def)
    ultimately show ?thesis
      by (simp add: seqInv_def)
  qed
qed

lemma seqInv_run: "seqInv L a \<Longrightarrow> seqInv L (runSequentialCrawl n L B a)"
  by (induction n arbitrary: a) (auto simp: seqInv_step split: option.splits)

lemma seqInv_start: "seqInv L \<lparr>config = cfg, session = cs, world = w, dispatched = []\<rparr>"
  by (simp add: seqInv_def)


lemma filter_update_out:
  "i < length xs \<Longrightarrow> P (xs ! i) \<Longrightarrow> \<not> P y \<Longrightarrow>
   mset (filter P xs) = add_mset (xs ! i) (mset (filter P (xs[i := y])))"
proof (induction xs arbitrary: i)
  case Nil
  then show ?case by simp
next
  case (Cons x xs)
  then show ?case by (cases i) auto
qed

lemma filter_update_neither:
  "i < length xs \<Longrightarrow> \<not> P (xs ! i) \<Longrightarrow> \<not> P y \<Longrightarrow> filter P (xs[i := y]) = filter P xs"
proof (induction xs arbitrary: i)
  case Nil
  then show ?case by simp
next
  case (Cons x xs)
  then show ?case by (cases i) auto
qed

lemma filter_update_same:
  "i < length xs \<Longrightarrow> P (xs ! i) \<Longrightarrow> P y \<Longrightarrow> g y = g (xs ! i) \<Longrightarrow>
   map g (filter P (xs[i := y])) = map g (filter P xs)"
proof (induction xs arbitrary: i)
  case Nil
  then show ?case by simp
next
  case (Cons x xs)
  then show ?case by (cases i) auto
qed

lemma taskLinks_frame [simp]:
  "config (taskLinks L B t r a) = config a"
  "dispatched (taskLinks L B t r a) = dispatched a"
  "visitedURLs (session (taskLinks L B t r a)) = visitedURLs (session a)"
  by (auto simp: taskLinks_def split: prod.splits option.splits)

lemma mainIteration_effect:
  "config (app (mainIteration L s)) = config (app s) \<and>
   dispatched (app (mainIteration L s)) = dispatched (app s) \<and>
   ((tasks (mainIteration L s) = tasks s
       \<and> visitedURLs (session (app (mainIteration L s))) = visitedURLs (session (app s)))
    \<or> (\<exists>url depth.
          tasks (mainIteration L s) = tasks s @ [\<lparr>pageURL = url, pageDepth = depth, phase = Spawned\<rparr>]
          \<and> NormalizeURL L url \<notin> visitedURLs (session (app s))
          \<and> visitedURLs (session (app (mainIteration L s)))
              = insert (NormalizeURL L url) (visitedURLs (session (app s)))
          \<and> eligible L (config (app s)) (url, depth)))"
  by (auto simp: mainIteration_def GetNextURL_def Let_def MarkVisited_def
      IsVisited_def IsExisting_def eligible_def
      split: list.splits prod.splits if_splits option.splits)

lemma parStep_effect:
  assumes "parStep L B e s = Some s'"
  shows "config (app s') = config (app s) \<and>
     ((mset (started s') = mset (started s)
         \<and> visitedURLs (session (app s')) = visitedURLs (session (app s)))
      \<or> (\<exists>url depth. started s' = started s @ [(url, depth)]
            \<and> NormalizeURL L url \<notin> visitedURLs (session (app s))
            \<and> visitedURLs (session (app s')) = insert (NormalizeURL L url) (visitedURLs (session (app s)))
            \<and> eligible L (config (app s)) (url, depth)))"
proof (cases e)
  case MainIter
  with assms have s': "s' = mainIteration L s"
    by (simp add: parStep_def split: if_splits)
  show ?thesis
    using mainIteration_effect [of L s] unfolding s' started_def
    by (auto simp: pending_def)
next
  case MainWait
  with assms show ?thesis
    by (auto simp: parStep_def started_def split: if_splits)
next
  case (Acquire i)
  with assms have i: "i < length (tasks s)" "phase (tasks s ! i) = Spawned"
    and s': "s' = s\<lparr>tasks := (tasks s)[i := (tasks s ! i)\<lparr>phase := Acquired\<rparr>]\<rparr>"
    by (auto simp: parStep_def split: if_splits)
  have "map (\<lambda>t. (pageURL t, pageDepth t)) (filter pending ((tasks s)[i := (tasks s ! i)\<lparr>phase := Acquired\<rparr>]))
      = map (\<lambda>t. (pageURL t, pageDepth t)) (filter pending (tasks s))"
    using i by (intro filter_update_same) (simp_all add: pending_def)
  then show ?thesis
    by (simp add: s' started_def)
next
  case (Capture i)
  with assms obtain result w where i: "i < length (tasks s)" "phase (tasks s ! i) = Acquired"
    and s': "s' = s\<lparr>app := (app s)\<lparr>world := w,
                 dispatched := dispatched (app s) @ [(pageURL (tasks s ! i), pageDepth (tasks s ! i))]\<rparr>,
               tasks := (tasks s)[i := (tasks s ! i)\<lparr>phase := Captured result\<rparr>]\<rparr>"
    by (auto simp: parStep_def Let_def split: if_splits prod.splits)
  have "mset (filter pending (tasks s)) =
      add_mset (tasks s ! i) (mset (filter pending ((tasks s)[i := (tasks s ! i)\<lparr>phase := Captured result\<rparr>])))"
    using i by (intro filter_update_out) (simp_all add: pending_def)
  then have "mset (map (\<lambda>t. (pageURL t, pageDepth t)) (filter pending (tasks s))) =
      add_mset (pageURL (tasks s ! i), pageDepth (tasks s ! i))
        (mset (map (\<lambda>t. (pageURL t, pageDepth t))
           (filter pending ((tasks s)[i := (tasks s ! i)\<lparr>phase := Captured result\<rparr>]))))"
    by (simp only: mset_map image_mset_add_mset)
  then show ?thesis
    by (simp add: s' started_def)
next
  case (Send i)
  with assms obtain result where i: "i < length (tasks s)" "phase (tasks s ! i) = Captured result"
    and s': "s' = s\<lparr>resultsChan := resultsChan s @ [result],
               tasks := (tasks s)[i := (tasks s ! i)\<lparr>phase := Sent result\<rparr>]\<rparr>"
    by (auto simp: parStep_def split: if_splits phase.splits)
  have "filter pending ((tasks s)[i := (tasks s ! i)\<lparr>phase := Sent result\<rparr>]) = filter pending (tasks s)"
    using i by (intro filter_update_neither) (simp_all add: pending_def)
  then show ?thesis
    by (simp add: s' started_def)
next
  case (Links i)
  with assms obtain result where i: "i < length (tasks s)" "phase (tasks s ! i) = Sent result"
    and s': "s' = s\<lparr>app := taskLinks L B (tasks s ! i) result (app s),
               tasks := (tasks s)[i := (tasks s ! i)\<lparr>phase := Finished\<rparr>]\<rparr>"
    by (auto simp: parStep_def split: if_splits phase.splits)
  have "filter pending ((tasks s)[i := (tasks s ! i)\<lparr>phase := Finished\<rparr>]) = filter pending (tasks s)"
    using i by (intro filter_update_neither) (simp_all add: pending_def)
  then show ?thesis
    by (simp add: s' started_def)
next
  case Collect
  with assms show ?thesis
    by (auto simp: parStep_def started_def AddResult_def split: list.splits)
qed

lemma parInv_step:
  assumes "parStep L B e s = Some s'" and "parInv L s"
  shows "parInv L s'"
proof -
  let ?f = "\<lambda>p. NormalizeURL L (fst p)"
  from parStep_effect [OF assms(1)]
  have cfg: "config (app s') = config (app s)"
    and eff: "(mset (started s') = mset (started s)
         \<and> visitedURLs (session (app s')) = visitedURLs (session (app s)))
      \<or> (\<exists>url depth. started s' = started s @ [(url, depth)]
            \<and> NormalizeURL L url \<notin> visitedURLs (session (app s))
            \<and> visitedURLs (session (app s')) = insert (NormalizeURL L url) (visitedURLs (session (app s)))
            \<and> eligible L (config (app s)) (url, depth))"
    by simp_all
  from eff show ?thesis
  proof
    assume same: "mset (started s') = mset (started s)
         \<and> visitedURLs (session (app s')) = visitedURLs (session (app s))"
    then have "mset (map ?f (started s')) = mset (map ?f (started s))"
      by simp
    then have "distinct (map ?f (started s')) = distinct (map ?f (started s))"
      by (rule mset_eq_imp_distinct_iff)
    moreover have "set (started s') = set (started s)"
      using same by (blast dest: mset_eq_setD)
    ultimately show ?thesis
      using assms(2) same by (simp add: parInv_def cfg list_all_iff)
  next
    assume "\<exists>url depth. started s' = started s @ [(url, depth)]
            \<and> NormalizeURL L url \<notin> visitedURLs (session (app s))
            \<and> visitedURLs (session (app s')) = insert (NormalizeURL L url) (visitedURLs (session (app s)))
            \<and> eligible L (config (app s)) (url, depth)"
    then obtain url depth where d: "started s' = started s @ [(url, depth)]"
      and fresh: "NormalizeURL L url \<notin> visitedURLs (session (app s))"
      and vis: "visitedURLs (session (app s')) = insert (NormalizeURL L url) (visitedURLs (session (app s)))"
      and el: "eligible L (config (app s)) (url, depth)"
      by blast
    have old: "\<forall>p\<in>set (started s). NormalizeURL L (fst p) \<in> visitedURLs (session (app s))"
      using assms(2) by (simp add: parInv_def list_all_iff)
    have "NormalizeURL L url \<notin> ?f ` set (started s)"
      using old fresh by auto
    then have "distinct (map ?f (started s'))"
      using assms(2) by (simp add: d parInv_def)
    moreover have "list_all (\<lambda>p. NormalizeURL L (fst p) \<in> visitedURLs (session (app s'))) (started s')"
      using old by (simp add: d vis list_all_iff)
    moreover have "list_all (eligible L (config (app s'))) (started s')"
      using assms(2) el by (simp add: d cfg parInv_def)
    ultimately show ?thesis
      by (simp add: parInv_def)
  qed
qed

lemma parInv_exec: "parInv L s \<Longrightarrow> parInv L (parExec L B e s)"
  by (auto simp: parExec_def parInv_step split: option.splits)

lemma parInv_run: "parInv L s \<Longrightarrow> parInv L (parRun L B es s)"
  by (induction es arbitrary: s) (simp_all add: parInv_exec)

lemma parInv_start: "parInv L (parStart \<lparr>config = cfg, session = cs, world = w, dispatched = []\<rparr>)"
  by (simp add: parInv_def parStart_def started_def)

lemma parInv_dispatched:
  assumes "parInv L s"
  shows "distinct (map (\<lambda>p. NormalizeURL L (fst p)) (dispatched (app s)))"
    and "list_all (\<lambda>p. NormalizeURL L (fst p) \<in> visitedURLs (session (app s))) (dispatched (app s))"
    and "list_all (eligible L (config (app s))) (dispatched (app s))"
  using assms by (simp_all add: parInv_def started_def)

lemma seqIteration_discard:
  assumes "GetNextURL (session a) = ((url, depth, True), cs')"
    and "depth > MaxDepth (config a) \<or> NormalizeURL L url \<in> visitedURLs (session a)"
  shows "seqIteration L B a = Some (a\<lparr>session := cs'\<rparr>)"
  using assms
  by (auto simp: seqIteration_def GetNextURL_def Let_def IsVisited_def split: list.splits)

lemma mainIteration_discard:
  assumes "GetNextURL (session (app s)) = ((url, depth, True), cs')"
    and "depth > MaxDepth (config (app s)) \<or> NormalizeURL L url \<in> visitedURLs (session (app s))"
  shows "mainIteration L s = s\<lparr>app := (app s)\<lparr>session := cs'\<rparr>\<rparr>"
  using assms
  by (auto simp: mainIteration_def GetNextURL_def Let_def IsVisited_def split: list.splits)

lemma GetNextURL_frame [simp]:
  "visitedURLs (snd (GetNextURL cs)) = visitedURLs cs"
  "existingURLs (snd (GetNextURL cs)) = existingURLs cs"
  "results (snd (GetNextURL cs)) = results cs"
  "depthMap (snd (GetNextURL cs)) = depthMap cs"
  by (simp_all add: GetNextURL_def split: list.splits)

lemma GetNextURL_queue:
  "fst (GetNextURL cs) = (url, depth, True) \<Longrightarrow> urlQueue (snd (GetNextURL cs)) = tl (urlQueue cs)"
  by (auto simp: GetNextURL_def split: list.splits)

lemma seqIteration_drop:
  assumes "fst (GetNextURL (session a)) = (url, depth, True)"
    and "depth > MaxDepth (config a) \<or> NormalizeURL L url \<in> visitedURLs (session a)"
  shows "seqIteration L B a = Some (a\<lparr>session := snd (GetNextURL (session a))\<rparr>)"
  using assms
  by (cases "GetNextURL (session a)") (auto simp: seqIteration_discard)

lemma mainIteration_drop:
  assumes "fst (GetNextURL (session (app s))) = (url, depth, True)"
    and "depth > MaxDepth (config (app s)) \<or> NormalizeURL L url \<in> visitedURLs (session (app s))"
  shows "mainIteration L s = s\<lparr>app := (app s)\<lparr>session := snd (GetNextURL (session (app s)))\<rparr>\<rparr>"
  using assms
  by (cases "GetNextURL (session (app s))") (auto simp: mainIteration_discard)

lemma config_seqIteration: "seqIteration L B a = Some a' \<Longrightarrow> config a' = config a"
  by (simp add: seqIteration_effect)

lemma config_runSequentialCrawl [simp]: "config (runSequentialCrawl n L B a) = config a"
  by (induction n arbitrary: a) (auto simp: config_seqIteration split: option.splits)

lemma config_parExec: "config (app (parExec L B e s)) = config (app s)"
  by (auto simp: parExec_def parStep_effect split: option.splits)

lemma config_parRun [simp]: "config (app (parRun L B es s)) = config (app s)"
  by (induction es arbitrary: s) (simp_all add: config_parExec)

lemma eligible_seq:
  "list_all (eligible L cfg) (dispatched (runSequentialCrawl n L B (crawlStart cfg cs w)))"
  using seqInv_run [OF seqInv_start, of L n B cfg cs w] by (simp add: seqInv_def)

lemma eligible_par:
  "list_all (eligible L cfg) (dispatched (app (runParallelCrawl es L B (crawlStart cfg cs w))))"
  using parInv_dispatched(3) [OF parInv_run [OF parInv_start, of L B es cfg cs w]]
  by (simp add: runParallelCrawl_def parStart_def)

lemma addNewLinksToQueue_step:
  "addNewLinksToQueue L cfg (link # links) d cs =
     addNewLinksToQueue L cfg links d
       (if enqueueable L cfg cs (FixRelativeURL L link (BaseURL cfg))
        then AddURL (FixRelativeURL L link (BaseURL cfg)) d cs else cs)"
  by (auto simp: Let_def enqueueable_def IsVisited_def IsExisting_def AddURL_def)

lemma addNewLinksToQueue_depthMap:
  "depthMap (addNewLinksToQueue L cfg links d cs) u =
     (if u \<in> set (filter (enqueueable L cfg cs)
                  (map (\<lambda>link. FixRelativeURL L link (BaseURL cfg)) links))
      then Some d else depthMap cs u)"
proof (induction links arbitrary: cs)
  case Nil
  then show ?case by simp
next
  case (Cons link links)
  show ?case
    unfolding addNewLinksToQueue_step
    by (simp add: Cons.IH enqueueable_cong [of "AddURL _ _ cs" cs])
       (auto simp: AddURL_def enqueueable_def)
qed

lemma addNewLinksToQueue_new:
  "\<exists>new. urlQueue (addNewLinksToQueue L cfg links d cs) = urlQueue cs @ new
     \<and> list_all (\<lambda>u. depthMap (addNewLinksToQueue L cfg links d cs) u = Some d) new"
  by (intro exI [of _ "filter (enqueueable L cfg cs)
        (map (\<lambda>link. FixRelativeURL L link (BaseURL cfg)) links)"])
     (simp add: addNewLinksToQueue_queue addNewLinksToQueue_depthMap list_all_iff)

lemma taskLinks_new:
  "\<exists>new. urlQueue (session (taskLinks L B t r a)) = urlQueue (session a) @ new
     \<and> list_all (\<lambda>u. depthMap (session (taskLinks L B t r a)) u = Some (pageDepth t + 1)) new
     \<and> (new = [] \<or> pageDepth t < MaxDepth (config a))"
proof (cases "Success r \<and> pageDepth t < MaxDepth (config a)")
  case False
  then have "taskLinks L B t r a = a"
    by (auto simp: taskLinks_def)
  then show ?thesis by simp
next
  case True
  show ?thesis
  proof (cases "ExtractLinks B (world a) (pageURL t)")
    case (Pair res w')
    show ?thesis
    proof (cases res)
      case None
      then have "session (taskLinks L B t r a) = session a"
        using True Pair by (simp add: taskLinks_def)
      then show ?thesis by simp
    next
      case (Some links)
      then have "session (taskLinks L B t r a) =
          addNewLinksToQueue L (config a) links (pageDepth t + 1) (session a)"
        using True Pair by (simp add: taskLinks_def)
      then show ?thesis
        using addNewLinksToQueue_new [of L "config a" links "pageDepth t + 1" "session a"] True
        by auto
    qed
  qed
qed

lemma seqIteration_new:
  assumes "fst (GetNextURL (session a)) = (url, depth, True)"
  shows "\<exists>a' new. seqIteration L B a = Some a'
     \<and> urlQueue (session a') = tl (urlQueue (session a)) @ new
     \<and> list_all (\<lambda>u. depthMap (session a') u = Some (depth + 1)) new
     \<and> (new = [] \<or> depth < MaxDepth (config a))"
proof -
  obtain cs where g: "GetNextURL (session a) = ((url, depth, True), cs)"
    using assms by (cases "GetNextURL (session a)") simp
  then have q: "urlQueue cs = tl (urlQueue (session a))"
    using GetNextURL_queue [OF assms] by simp
  have plain: "\<exists>a' new. seqIteration L B a = Some a'
     \<and> urlQueue (session a') = tl (urlQueue (session a)) @ new
     \<and> list_all (\<lambda>u. depthMap (session a') u = Some (depth + 1)) new
     \<and> (new = [] \<or> depth < MaxDepth (config a))"
    if "seqIteration L B a = Some a'" "urlQueue (session a') = urlQueue cs" for a'
    using that q by (intro exI [of _ a'] exI [of _ "[]"]) simp
  show ?thesis
  proof (cases "depth > MaxDepth (config a)")
    case True
    then have "seqIteration L B a = Some (a\<lparr>session := cs\<rparr>)"
      using g by (simp add: seqIteration_def)
    then show ?thesis
      by (rule plain) simp
  next
    case deep: False
    show ?thesis
    proof (cases "IsVisited (NormalizeURL L url) cs \<or> IsExisting (NormalizeURL L url) cs
        \<or> ShouldSkipURL L url (SkipPatterns (config a))")
      case True
      then have "seqIteration L B a = Some (a\<lparr>session := cs\<rparr>)
          \<or> seqIteration L B a = Some (a\<lparr>session := MarkVisited (NormalizeURL L url) cs\<rparr>)"
        using g deep by (auto simp: seqIteration_def Let_def)
      then show ?thesis
      proof
        assume "seqIteration L B a = Some (a\<lparr>session := cs\<rparr>)"
        then show ?thesis by (rule plain) simp
      next
        assume "seqIteration L B a = Some (a\<lparr>session := MarkVisited (NormalizeURL L url) cs\<rparr>)"
        then show ?thesis by (rule plain) (simp add: MarkVisited_def)
      qed
    next
      case elig: False
      obtain result w where cap: "CaptureScreenshot B (world a) url = (result, w)"
        by (cases "CaptureScreenshot B (world a) url")
      let ?cs1 = "AddResult result (MarkVisited (NormalizeURL L url) cs)"
      have q1: "urlQueue ?cs1 = urlQueue cs"
        by (simp add: AddResult_def MarkVisited_def)
      show ?thesis
      proof (cases "Success result \<and> depth < MaxDepth (config a)")
        case False
        then have "seqIteration L B a = Some (a\<lparr>session := ?cs1, world := w,
            dispatched := dispatched a @ [(url, depth)]\<rparr>)"
          using g deep elig cap by (auto simp: seqIteration_def Let_def)
        then show ?thesis
          by (rule plain) (simp add: q1)
      next
        case True
        obtain res w' where ex: "ExtractLinks B w url = (res, w')"
          by (cases "ExtractLinks B w url")
        show ?thesis
        proof (cases res)
          case None
          then have "seqIteration L B a = Some (a\<lparr>session := ?cs1, world := w',
              dispatched := dispatched a @ [(url, depth)]\<rparr>)"
            using g deep elig cap True ex by (auto simp: seqIteration_def Let_def)
          then show ?thesis
            by (rule plain) (simp add: q1)
        next
          case (Some links)
          let ?a' = "a\<lparr>session := addNewLinksToQueue L (config a) links (depth + 1) ?cs1,
              world := w', dispatched := dispatched a @ [(url, depth)]\<rparr>"
          have it: "seqIteration L B a = Some ?a'"
            using g deep elig cap True ex Some by (simp add: seqIteration_def Let_def)
          from addNewLinksToQueue_new [of L "config a" links "depth + 1" ?cs1]
          obtain new where "urlQueue (session ?a') = urlQueue ?cs1 @ new"
            "list_all (\<lambda>u. depthMap (session ?a') u = Some (depth + 1)) new"
            by auto
          then show ?thesis
            using it q q1 True by (intro exI [of _ ?a'] exI [of _ new]) simp
        qed
      qed
    qed
  qed
qed

text \<open>
  Claim C5. In every run, sequential or parallel, every call of \<open>CaptureScreenshot\<close>
  is made for an entry dequeued at a depth of at most \<open>MaxDepth\<close>. A dequeued entry
  deeper than \<open>MaxDepth\<close> is dropped by either loop: the session only loses the queue
  entry, nothing is captured and the visited set stays as it is. What a pass of the
  sequential loop, or the link step of a parallel task, appends to the queue carries the
  parent's depth plus one, and it appends nothing unless the parent's depth is strictly
  below \<open>MaxDepth\<close>.
\<close>

theorem C5_depth_bound:
  "list_all (\<lambda>p. snd p \<le> MaxDepth cfg)
      (dispatched (runSequentialCrawl n L B (crawlStart cfg cs w)))
   \<and> list_all (\<lambda>p. snd p \<le> MaxDepth cfg)
      (dispatched (app (runParallelCrawl es L B (crawlStart cfg cs w))))
   \<and> (fst (GetNextURL (session a)) = (url, depth, True) \<and> depth > MaxDepth (config a)
      \<longrightarrow> seqIteration L B a = Some (a\<lparr>session := snd (GetNextURL (session a))\<rparr>)
          \<and> visitedURLs (snd (GetNextURL (session a))) = visitedURLs (session a))
   \<and> (fst (GetNextURL (session (app s))) = (url, depth, True) \<and> depth > MaxDepth (config (app s))
      \<longrightarrow> mainIteration L s = s\<lparr>app := (app s)\<lparr>session := snd (GetNextURL (session (app s)))\<rparr>\<rparr>)
   \<and> (fst (GetNextURL (session a)) = (url, depth, True)
      \<longrightarrow> (\<exists>a' new. seqIteration L B a = Some a'
            \<and> urlQueue (session a') = tl (urlQueue (session a)) @ new
            \<and> list_all (\<lambda>u. depthMap (session a') u = Some (depth + 1)) new
            \<and> (new = [] \<or> depth < MaxDepth (config a))))
   \<and> (\<exists>new. urlQueue (session (taskLinks L B t r a)) = urlQueue (session a) @ new
        \<and> list_all (\<lambda>u. depthMap (session (taskLinks L B t r a)) u = Some (pageDepth t + 1)) new
        \<and> (new = [] \<or> pageDepth t < MaxDepth (config a)))"
proof -
  have "list_all (\<lambda>p. snd p \<le> MaxDepth cfg)
      (dispatched (runSequentialCrawl n L B (crawlStart cfg cs w)))"
    using eligible_seq [of L cfg n B cs w] by (simp add: list_all_iff eligible_def)
  moreover have "list_all (\<lambda>p. snd p \<le> MaxDepth cfg)
      (dispatched (app (runParallelCrawl es L B (crawlStart cfg cs w))))"
    using eligible_par [of L cfg es B cs w] by (simp add: list_all_iff eligible_def)
  ultimately show ?thesis
    using taskLinks_new [of L B t r a] seqIteration_new [of a url depth L B]
    by (simp add: seqIteration_drop mainIteration_drop)
qed

lemma seqIteration_skip:
  assumes "fst (GetNextURL (session a)) = (url, depth, True)"
    and "ShouldSkipURL L url (SkipPatterns (config a))"
  shows "\<exists>a'. seqIteration L B a = Some a' \<and> dispatched a' = dispatched a \<and> world a' = world a
     \<and> results (session a') = results (session a)
     \<and> urlQueue (session a') = tl (urlQueue (session a))
     \<and> (depth \<le> MaxDepth (config a) \<longrightarrow> NormalizeURL L url \<in> visitedURLs (session a'))"
proof -
  obtain cs where g: "GetNextURL (session a) = ((url, depth, True), cs)"
    using assms(1) by (cases "GetNextURL (session a)") simp
  have cs: "urlQueue cs = tl (urlQueue (session a))" "results cs = results (session a)"
    "visitedURLs cs = visitedURLs (session a)"
    using GetNextURL_queue [OF assms(1)] GetNextURL_frame [of "session a"] g by simp_all
  show ?thesis
    using g assms(2) cs
    by (auto simp: seqIteration_def Let_def MarkVisited_def IsVisited_def)
qed

lemma mainIteration_skip:
  assumes "fst (GetNextURL (session (app s))) = (url, depth, True)"
    and "ShouldSkipURL L url (SkipPatterns (config (app s)))"
  shows "tasks (mainIteration L s) = tasks s \<and> mainpc (mainIteration L s) = mainpc s
     \<and> dispatched (app (mainIteration L s)) = dispatched (app s)
     \<and> world (app (mainIteration L s)) = world (app s)
     \<and> results (session (app (mainIteration L s))) = results (session (app s))
     \<and> urlQueue (session (app (mainIteration L s))) = tl (urlQueue (session (app s)))"
proof -
  obtain cs where g: "GetNextURL (session (app s)) = ((url, depth, True), cs)"
    using assms(1) by (cases "GetNextURL (session (app s))") simp
  have cs: "urlQueue cs = tl (urlQueue (session (app s)))" "results cs = results (session (app s))"
    using GetNextURL_queue [OF assms(1)] GetNextURL_frame [of "session (app s)"] g by simp_all
  show ?thesis
    using g assms(2) cs
    by (auto simp: mainIteration_def Let_def)
qed

text \<open>
  In both modes no URL matching a skip pattern is ever passed to
  \<open>CaptureScreenshot\<close>, and a dequeued URL that matches one is discarded: the queue
  loses the entry, no result is recorded, the browser is not called and, in the parallel
  loop, no task is started. The sequential loop marks its normalized form visited when
  the entry's depth is within \<open>MaxDepth\<close>.
\<close>

lemma skip_pattern_never_captured:
  "list_all (\<lambda>p. \<not> ShouldSkipURL L (fst p) (SkipPatterns cfg))
      (dispatched (runSequentialCrawl n L B (crawlStart cfg cs w)))
   \<and> list_all (\<lambda>p. \<not> ShouldSkipURL L (fst p) (SkipPatterns cfg))
      (dispatched (app (runParallelCrawl es L B (crawlStart cfg cs w))))
   \<and> (fst (GetNextURL (session a)) = (url, depth, True)
        \<and> ShouldSkipURL L url (SkipPatterns (config a))
      \<longrightarrow> (\<exists>a'. seqIteration L B a = Some a' \<and> dispatched a' = dispatched a \<and> world a' = world a
            \<and> results (session a') = results (session a)
            \<and> urlQueue (session a') = tl (urlQueue (session a))
            \<and> (depth \<le> MaxDepth (config a) \<longrightarrow> NormalizeURL L url \<in> visitedURLs (session a'))))
   \<and> (fst (GetNextURL (session (app s))) = (url, depth, True)
        \<and> ShouldSkipURL L url (SkipPatterns (config (app s)))
      \<longrightarrow> tasks (mainIteration L s) = tasks s \<and> mainpc (mainIteration L s) = mainpc s
          \<and> dispatched (app (mainIteration L s)) = dispatched (app s)
          \<and> world (app (mainIteration L s)) = world (app s)
          \<and> results (session (app (mainIteration L s))) = results (session (app s))
          \<and> urlQueue (session (app (mainIteration L s))) = tl (urlQueue (session (app s))))"
proof -
  have "list_all (\<lambda>p. \<not> ShouldSkipURL L (fst p) (SkipPatterns cfg))
      (dispatched (runSequentialCrawl n L B (crawlStart cfg cs w)))"
    using eligible_seq [of L cfg n B cs w] by (simp add: list_all_iff eligible_def)
  moreover have "list_all (\<lambda>p. \<not> ShouldSkipURL L (fst p) (SkipPatterns cfg))
      (dispatched (app (runParallelCrawl es L B (crawlStart cfg cs w))))"
    using eligible_par [of L cfg es B cs w] by (simp add: list_all_iff eligible_def)
  ultimately show ?thesis
    using seqIteration_skip [of a url depth L B] mainIteration_skip [of s url depth L]
    by simp
qed

text \<open>
  Claim C6. A dequeued URL that matches a skip pattern is meant to be marked visited
  and never captured, in both modes. \<open>http://a.com/wp-admin/login\<close> matches the skip
  pattern \<open>/wp-admin\<close>. Dequeued at depth 1 with \<open>MaxDepth = 5\<close>, the sequential
  loop discards it without a capture and marks its normalized form visited; the
  parallel loop discards it without starting a task and leaves its normalized form
  out of the visited set.
\<close>

theorem C6_parallel_skip_not_marked_visited:
  "ShouldSkipURL go_stdlib ''http://a.com/wp-admin/login'' (SkipPatterns demoConfig)
   \<and> fst (GetNextURL (session (demoApp ''http://a.com/wp-admin/login'' 1)))
       = (''http://a.com/wp-admin/login'', 1, True)
   \<and> (case seqIteration go_stdlib demoBrowser (demoApp ''http://a.com/wp-admin/login'' 1) of
         None \<Rightarrow> False
       | Some a' \<Rightarrow> dispatched a' = [] \<and> urlQueue (session a') = []
           \<and> NormalizeURL go_stdlib ''http://a.com/wp-admin/login'' \<in> visitedURLs (session a'))
   \<and> tasks (runParallelCrawl [MainIter] go_stdlib demoBrowser
         (demoApp ''http://a.com/wp-admin/login'' 1)) = []
   \<and> dispatched (app (runParallelCrawl [MainIter] go_stdlib demoBrowser
         (demoApp ''http://a.com/wp-admin/login'' 1))) = []
   \<and> urlQueue (session (app (runParallelCrawl [MainIter] go_stdlib demoBrowser
         (demoApp ''http://a.com/wp-admin/login'' 1)))) = []
   \<and> NormalizeURL go_stdlib ''http://a.com/wp-admin/login''
       \<notin> visitedURLs (session (app (runParallelCrawl [MainIter] go_stdlib demoBrowser
           (demoApp ''http://a.com/wp-admin/login'' 1))))"
  by code_simp

text \<open>
  Once the main goroutine has left its loop no step starts a task or changes a task's
  URL, so every capture made from then on belongs to a task started before.
\<close>

lemma exited_step:
  assumes "mainpc s \<noteq> Looping" and "parStep L B e s = Some s'"
  shows "mainpc s' \<noteq> Looping
     \<and> map (\<lambda>t. (pageURL t, pageDepth t)) (tasks s') = map (\<lambda>t. (pageURL t, pageDepth t)) (tasks s)
     \<and> set (dispatched (app s')) \<subseteq> set (dispatched (app s))
          \<union> set (map (\<lambda>t. (pageURL t, pageDepth t)) (tasks s))"
proof (cases e)
  case MainIter
  with assms show ?thesis by (simp add: parStep_def)
next
  case MainWait
  with assms show ?thesis by (auto simp: parStep_def split: if_splits)
next
  case (Acquire i)
  with assms show ?thesis
    by (auto simp: parStep_def map_update list_update_same_conv split: if_splits)
next
  case (Capture i)
  with assms show ?thesis
    by (auto simp: parStep_def Let_def map_update list_update_same_conv
        split: if_splits prod.splits)
next
  case (Send i)
  with assms show ?thesis
    by (auto simp: parStep_def map_update list_update_same_conv split: if_splits phase.splits)
next
  case (Links i)
  with assms show ?thesis
    by (auto simp: parStep_def map_update list_update_same_conv split: if_splits phase.splits)
next
  case Collect
  with assms show ?thesis
    by (auto simp: parStep_def split: list.splits)
qed

lemma exited_run:
  assumes "mainpc s \<noteq> Looping"
  shows "set (dispatched (app (parRun L B es s))) \<subseteq> set (dispatched (app s))
          \<union> set (map (\<lambda>t. (pageURL t, pageDepth t)) (tasks s))"
  using assms
proof (induction es arbitrary: s)
  case Nil
  then show ?case by simp
next
  case (Cons e es)
  show ?case
  proof (cases "parStep L B e s")
    case None
    then show ?thesis using Cons by (simp add: parExec_def)
  next
    case (Some s')
    from exited_step [OF Cons.prems Some] Cons.IH [of s']
    show ?thesis using Some by (auto simp: parExec_def)
  qed
qed

text \<open>
  Claim C3 does not hold of the code: the loop of \<open>runParallelCrawl\<close> leaves on the
  first empty queue, whatever is in flight. On the site whose start page links to
  \<open>/about\<close>, the main goroutine dequeues the start page, starts its task and finds the
  queue empty; the task then captures the page and enqueues \<open>/about\<close>, and the run
  returns with \<open>/about\<close> still queued. After those two passes of the main loop no
  schedule captures anything but the start page, while the sequential crawl of the same
  site captures both pages.
\<close>

theorem C3_parallel_loop_exits_on_empty_queue:
  "(case parTrace go_stdlib demoBrowser
          [MainIter, MainIter, Acquire 0, Capture 0, Send 0, Links 0, MainWait, Collect]
          (parStart (demoApp ''http://a.com'' 0)) of
      None \<Rightarrow> False
    | Some s \<Rightarrow> mainpc s = Returned \<and> list_all (\<lambda>t. phase t = Finished) (tasks s)
        \<and> resultsChan s = []
        \<and> urlQueue (session (app s)) = [''http://a.com/about'']
        \<and> dispatched (app s) = [(''http://a.com'', 0)])
   \<and> list_all (\<lambda>p. p = (''http://a.com'', 0))
        (dispatched (app (runParallelCrawl (MainIter # MainIter # es) go_stdlib demoBrowser
           (demoApp ''http://a.com'' 0))))
   \<and> dispatched (runSequentialCrawl 3 go_stdlib demoBrowser (demoApp ''http://a.com'' 0))
       = [(''http://a.com'', 0), (''http://a.com/about'', 1)]"
proof -
  define s2 where
    "s2 = parRun go_stdlib demoBrowser [MainIter, MainIter] (parStart (demoApp ''http://a.com'' 0))"
  have s2: "mainpc s2 \<noteq> Looping" "dispatched (app s2) = []"
    "map (\<lambda>t. (pageURL t, pageDepth t)) (tasks s2) = [(''http://a.com'', 0)]"
    unfolding s2_def by code_simp+
  have "set (dispatched (app (parRun go_stdlib demoBrowser es s2)))
      \<subseteq> set (dispatched (app s2)) \<union> set (map (\<lambda>t. (pageURL t, pageDepth t)) (tasks s2))"
    by (rule exited_run [OF s2(1)])
  then have sub: "set (dispatched (app (parRun go_stdlib demoBrowser es s2))) \<subseteq> {(''http://a.com'', 0)}"
    unfolding s2(2,3) by simp
  have "runParallelCrawl (MainIter # MainIter # es) go_stdlib demoBrowser (demoApp ''http://a.com'' 0)
      = parRun go_stdlib demoBrowser es s2"
    by (simp add: runParallelCrawl_def s2_def)
  then have general: "list_all (\<lambda>p. p = (''http://a.com'', 0))
        (dispatched (app (runParallelCrawl (MainIter # MainIter # es) go_stdlib demoBrowser
           (demoApp ''http://a.com'' 0))))"
    using sub by (auto simp: list_all_iff)
  have trace: "(case parTrace go_stdlib demoBrowser
          [MainIter, MainIter, Acquire 0, Capture 0, Send 0, Links 0, MainWait, Collect]
          (parStart (demoApp ''http://a.com'' 0)) of
      None \<Rightarrow> False
    | Some s \<Rightarrow> mainpc s = Returned \<and> list_all (\<lambda>t. phase t = Finished) (tasks s)
        \<and> resultsChan s = []
        \<and> urlQueue (session (app s)) = [''http://a.com/about'']
        \<and> dispatched (app s) = [(''http://a.com'', 0)])"
    by code_simp
  have seq: "dispatched (runSequentialCrawl 3 go_stdlib demoBrowser (demoApp ''http://a.com'' 0))
       = [(''http://a.com'', 0), (''http://a.com/about'', 1)]"
    by code_simp
  show ?thesis
    using trace general seq by blast
qed

text \<open>
  Claim C1. In every run, sequential or parallel, at every point of it, the URLs passed
  to \<open>CaptureScreenshot\<close> have pairwise different normalized forms, so no URL is
  dispatched twice, and the normalized form of each is in the visited set. A dequeued URL
  whose normalized form is already visited is dropped by either loop without a capture:
  the session only loses the queue entry.
\<close>

theorem C1_no_url_dispatched_twice:
  "distinct (map (\<lambda>p. NormalizeURL L (fst p))
      (dispatched (runSequentialCrawl n L B (crawlStart cfg cs w))))
   \<and> list_all (\<lambda>p. NormalizeURL L (fst p)
          \<in> visitedURLs (session (runSequentialCrawl n L B (crawlStart cfg cs w))))
        (dispatched (runSequentialCrawl n L B (crawlStart cfg cs w)))
   \<and> distinct (map (\<lambda>p. NormalizeURL L (fst p))
      (dispatched (app (runParallelCrawl es L B (crawlStart cfg cs w)))))
   \<and> list_all (\<lambda>p. NormalizeURL L (fst p)
          \<in> visitedURLs (session (app (runParallelCrawl es L B (crawlStart cfg cs w)))))
        (dispatched (app (runParallelCrawl es L B (crawlStart cfg cs w))))
   \<and> (fst (GetNextURL (session a)) = (url, depth, True)
        \<and> NormalizeURL L url \<in> visitedURLs (session a)
      \<longrightarrow> seqIteration L B a = Some (a\<lparr>session := snd (GetNextURL (session a))\<rparr>))
   \<and> (fst (GetNextURL (session (app s))) = (url, depth, True)
        \<and> NormalizeURL L url \<in> visitedURLs (session (app s))
      \<longrightarrow> mainIteration L s = s\<lparr>app := (app s)\<lparr>session := snd (GetNextURL (session (app s)))\<rparr>\<rparr>)"
proof -
  have seq: "seqInv L (runSequentialCrawl n L B (crawlStart cfg cs w))"
    by (intro seqInv_run seqInv_start)
  have par: "parInv L (runParallelCrawl es L B (crawlStart cfg cs w))"
    unfolding runParallelCrawl_def by (intro parInv_run parInv_start)
  show ?thesis
    using seq parInv_dispatched(1,2) [OF par]
    by (simp add: seqInv_def seqIteration_drop mainIteration_drop)
qed

theorem C1_no_url_dispatched_twice_witness:
  "fst (GetNextURL (session demoRevisit)) = (''http://a.com'', 0, True)
   \<and> NormalizeURL go_stdlib ''http://a.com'' \<in> visitedURLs (session demoRevisit)
   \<and> seqIteration go_stdlib demoBrowser demoRevisit
       = Some (demoRevisit\<lparr>session := snd (GetNextURL (session demoRevisit))\<rparr>)
   \<and> dispatched (runSequentialCrawl 3 go_stdlib demoBrowser (demoApp ''http://a.com'' 0))
       = [(''http://a.com'', 0), (''http://a.com/about'', 1)]
   \<and> distinct (map (\<lambda>p. NormalizeURL go_stdlib (fst p))
        (dispatched (runSequentialCrawl 3 go_stdlib demoBrowser (demoApp ''http://a.com'' 0))))"
proof -
  have h: "fst (GetNextURL (session demoRevisit)) = (''http://a.com'', 0, True)
      \<and> NormalizeURL go_stdlib ''http://a.com'' \<in> visitedURLs (session demoRevisit)"
    by code_simp
  have run: "dispatched (runSequentialCrawl 3 go_stdlib demoBrowser (demoApp ''http://a.com'' 0))
       = [(''http://a.com'', 0), (''http://a.com/about'', 1)]"
    by code_simp
  have start: "demoApp ''http://a.com'' 0
      = crawlStart demoConfig (AddURL ''http://a.com'' 0 (NewCrawlSession ''http://a.com'' 0)) ()"
    by (simp add: demoApp_def)
  from C1_no_url_dispatched_twice [where L = go_stdlib and B = demoBrowser and n = 3 and cfg = demoConfig
      and cs = "AddURL ''http://a.com'' 0 (NewCrawlSession ''http://a.com'' 0)" and w = "()"
      and a = demoRevisit and url = "''http://a.com''" and depth = 0]
  have "distinct (map (\<lambda>p. NormalizeURL go_stdlib (fst p))
        (dispatched (runSequentialCrawl 3 go_stdlib demoBrowser (demoApp ''http://a.com'' 0))))"
    and "seqIteration go_stdlib demoBrowser demoRevisit
       = Some (demoRevisit\<lparr>session := snd (GetNextURL (session demoRevisit))\<rparr>)"
    using h unfolding start by blast+
  then show ?thesis
    using h run by blast
qed

theorem C5_depth_bound_witness:
  "fst (GetNextURL (session (demoApp ''http://a.com/deep'' 6))) = (''http://a.com/deep'', 6, True)
   \<and> 6 > MaxDepth (config (demoApp ''http://a.com/deep'' 6))
   \<and> seqIteration go_stdlib demoBrowser (demoApp ''http://a.com/deep'' 6)
       = Some ((demoApp ''http://a.com/deep'' 6)\<lparr>session :=
           snd (GetNextURL (session (demoApp ''http://a.com/deep'' 6)))\<rparr>)
   \<and> dispatched (the (seqIteration go_stdlib demoBrowser (demoApp ''http://a.com/deep'' 6))) = []
   \<and> dispatched (runSequentialCrawl 3 go_stdlib demoBrowser (demoApp ''http://a.com'' 0))
       = [(''http://a.com'', 0), (''http://a.com/about'', 1)]
   \<and> list_all (\<lambda>p. snd p \<le> MaxDepth demoConfig)
        (dispatched (runSequentialCrawl 3 go_stdlib demoBrowser (demoApp ''http://a.com'' 0)))"
proof -
  have h: "fst (GetNextURL (session (demoApp ''http://a.com/deep'' 6))) = (''http://a.com/deep'', 6, True)
      \<and> 6 > MaxDepth (config (demoApp ''http://a.com/deep'' 6))"
    by code_simp
  have run: "dispatched (runSequentialCrawl 3 go_stdlib demoBrowser (demoApp ''http://a.com'' 0))
       = [(''http://a.com'', 0), (''http://a.com/about'', 1)]"
    "dispatched (the (seqIteration go_stdlib demoBrowser (demoApp ''http://a.com/deep'' 6))) = []"
    by code_simp+
  have start: "demoApp ''http://a.com'' 0
      = crawlStart demoConfig (AddURL ''http://a.com'' 0 (NewCrawlSession ''http://a.com'' 0)) ()"
    by (simp add: demoApp_def)
  from C5_depth_bound [where L = go_stdlib and B = demoBrowser and n = 3 and cfg = demoConfig
      and cs = "AddURL ''http://a.com'' 0 (NewCrawlSession ''http://a.com'' 0)" and w = "()"
      and a = "demoApp ''http://a.com/deep'' 6" and url = "''http://a.com/deep''" and depth = 6]
  have "list_all (\<lambda>p. snd p \<le> MaxDepth demoConfig)
        (dispatched (runSequentialCrawl 3 go_stdlib demoBrowser (demoApp ''http://a.com'' 0)))"
    and "seqIteration go_stdlib demoBrowser (demoApp ''http://a.com/deep'' 6)
       = Some ((demoApp ''http://a.com/deep'' 6)\<lparr>session :=
           snd (GetNextURL (session (demoApp ''http://a.com/deep'' 6)))\<rparr>)"
    using h unfolding start by blast+
  then show ?thesis
    using h run by blast
qed

subsection \<open>Normalization\<close>

lemma NormalizeURL_parsed:
  "url_Parse L u = Some v \<Longrightarrow>
   NormalizeURL L u = url_String L (v\<lparr>Fragment := [], RawQuery := [], Path := normPath (Path v)\<rparr>)"
  by (simp add: NormalizeURL_def normPath_def Let_def)

lemma TrimSuffix_slash:
  "TrimSuffix p ''/'' = (if p \<noteq> [] \<and> last p = CHR ''/'' then butlast p else p)"
  by (cases p rule: rev_cases) (auto simp: TrimSuffix_def suffix_def)

lemma normPath_nonempty [simp]: "normPath p \<noteq> []"
  by (simp add: normPath_def Let_def)

lemma normPath_hd: "p = [] \<or> hd p = CHR ''/'' \<Longrightarrow> hd (normPath p) = CHR ''/''"
  by (cases p rule: rev_cases) (auto simp: normPath_def Let_def TrimSuffix_slash hd_append)

lemma normPath_set: "set (normPath p) \<subseteq> insert (CHR ''/'') (set p)"
  by (cases p rule: rev_cases) (auto simp: normPath_def Let_def TrimSuffix_slash)

lemma normPath_idem_iff:
  "normPath (normPath p) = normPath p \<longleftrightarrow> \<not> (suffix ''//'' p \<and> p \<noteq> ''//'')"
proof (cases p rule: rev_cases)
  case Nil
  then show ?thesis by (simp add: normPath_def Let_def TrimSuffix_slash suffix_def)
next
  case (snoc q c)
  show ?thesis
  proof (cases q rule: rev_cases)
    case Nil
    then show ?thesis using snoc
      by (auto simp: normPath_def Let_def TrimSuffix_slash suffix_def)
  next
    case (snoc r d)
    then show ?thesis using \<open>p = q @ [c]\<close>
      by (auto simp: normPath_def Let_def TrimSuffix_slash suffix_def butlast_append)
  qed
qed


lemma Cut_absent:
  assumes "c \<notin> set x"
  shows "Cut x c = (x, [])"
proof -
  have t: "takeWhile (\<lambda>a. a \<noteq> c) x = x"
    using assms by (auto simp: takeWhile_eq_all_conv)
  have d: "dropWhile (\<lambda>a. a \<noteq> c) x = []"
    using assms by (auto simp: dropWhile_eq_Nil_conv)
  show ?thesis
    unfolding Cut_def t d by simp
qed

lemma CTL_append [simp]:
  "stringContainsCTLByte (a @ b) = (stringContainsCTLByte a \<or> stringContainsCTLByte b)"
  by (simp add: stringContainsCTLByte_def)

lemma CTL_Nil [simp]: "\<not> stringContainsCTLByte []"
  by (simp add: stringContainsCTLByte_def)

lemma CTL_Cons:
  "stringContainsCTLByte (c # b) = ((of_char c :: nat) < 32 \<or> (of_char c :: nat) = 127 \<or> stringContainsCTLByte b)"
  by (simp add: stringContainsCTLByte_def)

lemma suffix_single: "suffix [c] xs \<longleftrightarrow> xs \<noteq> [] \<and> last xs = c"
  by (cases xs rule: rev_cases) (auto simp: suffix_def)

lemma split_authority:
  assumes "CHR ''/'' \<notin> set H" and "P \<noteq> []" and "hd P = CHR ''/''"
  shows "takeWhile (\<lambda>c. c \<noteq> CHR ''/'') (H @ P) = H"
    and "dropWhile (\<lambda>c. c \<noteq> CHR ''/'') (H @ P) = P"
proof -
  obtain P' where P: "P = CHR ''/'' # P'"
    using assms(2,3) by (cases P) auto
  have H: "\<And>x. x \<in> set H \<Longrightarrow> x \<noteq> CHR ''/''"
    using assms(1) by auto
  show "takeWhile (\<lambda>c. c \<noteq> CHR ''/'') (H @ P) = H"
    using H by (simp add: P)
  show "dropWhile (\<lambda>c. c \<noteq> CHR ''/'') (H @ P) = P"
    using H by (simp add: P)
qed

lemma getScheme_http: "getScheme (''http:'' @ r) = Some (''http'', r)"
  by (simp add: getScheme_def isLower_def isUpper_def isDigit_def)

lemma getScheme_https: "getScheme (''https:'' @ r) = Some (''https'', r)"
  by (simp add: getScheme_def isLower_def isUpper_def isDigit_def)

lemma go_ToLower_http: "go_ToLower ''http'' = ''http''" "go_ToLower ''https'' = ''https''"
  by (simp_all add: go_ToLower_def isUpper_def)

lemma go_String_web:
  assumes "Scheme v \<noteq> []" and "Host v \<noteq> []" and "Opaque v = []" and "p \<noteq> []" and "hd p = CHR ''/''"
  shows "go_String (v\<lparr>Fragment := [], RawQuery := [], Path := p\<rparr>) =
     Scheme v @ ''://'' @ Host v @ p @ (if ForceQuery v then ''?'' else [])"
  using assms by (simp add: go_String_def Let_def)

lemma go_parse_web:
  assumes sch: "sch = ''http'' \<or> sch = ''https''"
    and H: "H \<noteq> []" "CHR ''/'' \<notin> set H" "CHR ''?'' \<notin> set H" "parseHost H = Some H"
      "\<not> stringContainsCTLByte H"
    and P: "P \<noteq> []" "hd P = CHR ''/''" "CHR ''?'' \<notin> set P" "\<not> stringContainsCTLByte P"
  shows "go_parse (sch @ ''://'' @ H @ P @ (if fq then ''?'' else [])) =
     Some (emptyURL\<lparr>Scheme := sch, ForceQuery := fq, RawQuery := [], Host := H, Path := P\<rparr>)"
proof -
  let ?q = "if fq then ''?'' else []"
  let ?rest0 = "''//'' @ H @ P @ ?q"
  have gs: "getScheme (sch @ ''://'' @ H @ P @ ?q) = Some (sch, ?rest0)"
    using sch getScheme_http [of ?rest0] getScheme_https [of ?rest0] by auto
  have low: "go_ToLower sch = sch"
    using sch go_ToLower_http by auto
  have lastP: "last P \<noteq> CHR ''?''"
    using P(1,3) last_in_set by metis
  have force: "(HasSuffix ?rest0 ''?'' \<and> count_list ?rest0 (CHR ''?'') = 1) = fq"
    using H(3) P(1,3) lastP by (auto simp: HasSuffix_def suffix_single count_list_0_iff)
  have "CHR ''?'' \<notin> set (''//'' @ H @ P)"
    using H(3) P(3) by simp
  then have cutq: "Cut (''//'' @ H @ P) (CHR ''?'') = (''//'' @ H @ P, [])"
    by (rule Cut_absent)
  have rest: "(if fq then butlast ?rest0 else fst (Cut ?rest0 (CHR ''?''))) = ''//'' @ H @ P"
    using cutq by (simp add: butlast_append)
  have query: "(if fq then [] else snd (Cut ?rest0 (CHR ''?''))) = []"
    using cutq by simp
  have ctl: "\<not> stringContainsCTLByte (sch @ ''://'' @ H @ P @ ?q)"
    using sch H(5) P(4) by (auto simp: CTL_Cons)
  have star: "sch @ ''://'' @ H @ P @ ?q \<noteq> ''*''"
    using sch by auto
  have sch_ne: "sch \<noteq> []"
    using sch by auto
  show ?thesis
    unfolding go_parse_def gs option.case prod.case Let_def force rest query low
    using ctl star sch_ne H(4) split_authority [OF H(2) P(1,2)]
    by (simp add: HasPrefix_def)
qed

lemma go_Parse_web:
  assumes sch: "sch = ''http'' \<or> sch = ''https''"
    and H: "H \<noteq> []" "CHR ''/'' \<notin> set H" "CHR ''?'' \<notin> set H" "CHR ''#'' \<notin> set H"
      "parseHost H = Some H" "\<not> stringContainsCTLByte H"
    and P: "P \<noteq> []" "hd P = CHR ''/''" "CHR ''?'' \<notin> set P" "CHR ''#'' \<notin> set P"
      "\<not> stringContainsCTLByte P"
  shows "go_Parse (sch @ ''://'' @ H @ P @ (if fq then ''?'' else [])) =
     Some (emptyURL\<lparr>Scheme := sch, ForceQuery := fq, RawQuery := [], Host := H, Path := P\<rparr>)"
proof -
  have "CHR ''#'' \<notin> set (sch @ ''://'' @ H @ P @ (if fq then ''?'' else []))"
    using sch H(4) P(4) by auto
  then have cut: "Cut (sch @ ''://'' @ H @ P @ (if fq then ''?'' else [])) (CHR ''#'')
      = (sch @ ''://'' @ H @ P @ (if fq then ''?'' else []), [])"
    by (rule Cut_absent)
  show ?thesis
    unfolding go_Parse_def cut Let_def fst_conv snd_conv
    using go_parse_web [OF sch H(1,2,3,5,6) P(1,2,3,5), of fq] by simp
qed


lemma CTL_subset:
  "\<not> stringContainsCTLByte x \<Longrightarrow> set y \<subseteq> set x \<Longrightarrow> \<not> stringContainsCTLByte y"
  by (auto simp: stringContainsCTLByte_def list_ex_iff)

lemma schemeScan_rest:
  "schemeScan raw i cs = Some (s, r) \<Longrightarrow> set cs \<subseteq> set raw \<Longrightarrow> set r \<subseteq> set raw"
  by (induction raw i cs rule: schemeScan.induct) (auto split: if_splits)

lemma getScheme_rest: "getScheme x = Some (s, r) \<Longrightarrow> set r \<subseteq> set x"
  using schemeScan_rest [of x 0 x s r] by (simp add: getScheme_def)

lemma single_occurrence_last:
  assumes "suffix [c] xs" and "count_list xs c = 1"
  shows "c \<notin> set (butlast xs)"
proof -
  obtain ys where xs: "xs = ys @ [c]"
    using assms(1) by (auto simp: suffix_def)
  then have "count_list ys c = 0"
    using assms(2) by simp
  then show ?thesis
    by (simp add: xs count_list_0_iff)
qed

lemma parseHost_Some: "parseHost h = Some h' \<Longrightarrow> h' = h"
  by (auto simp: parseHost_def Let_def split: if_splits)

text \<open>What a successful parse with a host says about the parts of the URL.\<close>

lemma go_parse_host:
  assumes "go_parse x = Some v" and "Host v \<noteq> []"
  shows "Opaque v = [] \<and> Fragment v = []
     \<and> CHR ''/'' \<notin> set (Host v) \<and> CHR ''?'' \<notin> set (Host v) \<and> CHR ''?'' \<notin> set (Path v)
     \<and> set (Host v) \<subseteq> set x \<and> set (Path v) \<subseteq> set x
     \<and> parseHost (Host v) = Some (Host v)
     \<and> (Path v = [] \<or> hd (Path v) = CHR ''/'')
     \<and> \<not> stringContainsCTLByte x"
proof -
  have nctl: "\<not> stringContainsCTLByte x"
    using assms(1) by (auto simp: go_parse_def split: if_splits)
  have nstar: "x \<noteq> ''*''"
    using assms by (auto simp: go_parse_def emptyURL_def split: if_splits)
  obtain scheme0 rest0 where gs: "getScheme x = Some (scheme0, rest0)"
    using assms(1) nctl nstar by (auto simp: go_parse_def split: option.splits)
  define force where "force = (HasSuffix rest0 ''?'' \<and> count_list rest0 (CHR ''?'') = 1)"
  define rest where "rest = (if force then butlast rest0 else fst (Cut rest0 (CHR ''?'')))"
  define auth where "auth = takeWhile (\<lambda>c. c \<noteq> CHR ''/'') (drop 2 rest)"
  define path where "path = dropWhile (\<lambda>c. c \<noteq> CHR ''/'') (drop 2 rest)"
  have rest0: "set rest0 \<subseteq> set x"
    using gs by (rule getScheme_rest)
  have rest_sub: "set rest \<subseteq> set rest0"
    by (auto simp: rest_def Cut_def dest: in_set_butlastD set_takeWhileD)
  have rest_q: "CHR ''?'' \<notin> set rest"
  proof (cases force)
    case True
    then show ?thesis
      using single_occurrence_last [of "CHR ''?''" rest0]
      by (simp add: rest_def force_def HasSuffix_def)
  next
    case False
    then show ?thesis
      by (auto simp: rest_def Cut_def dest: set_takeWhileD)
  qed
  define url where
    "url = emptyURL\<lparr>Scheme := go_ToLower scheme0, ForceQuery := force,
       RawQuery := (if force then [] else snd (Cut rest0 (CHR ''?'')))\<rparr>"
  have body: "go_parse x =
     (if \<not> HasPrefix rest ''/'' \<and> go_ToLower scheme0 \<noteq> [] then Some (url\<lparr>Opaque := rest\<rparr>)
      else if \<not> HasPrefix rest ''/'' \<and> Contains (fst (Cut rest (CHR ''/''))) '':'' then None
      else if (go_ToLower scheme0 \<noteq> [] \<or> \<not> HasPrefix rest ''///'') \<and> HasPrefix rest ''//'' then
        (case parseHost auth of None \<Rightarrow> None | Some host \<Rightarrow> Some (url\<lparr>Host := host, Path := path\<rparr>))
      else if go_ToLower scheme0 \<noteq> [] \<and> HasPrefix rest ''/'' then
        Some (url\<lparr>OmitHost := True, Path := rest\<rparr>)
      else Some (url\<lparr>Path := rest\<rparr>))"
    unfolding go_parse_def gs option.case prod.case Let_def force_def [symmetric]
      rest_def [symmetric] auth_def [symmetric] path_def [symmetric] url_def [symmetric]
    using nctl nstar by (simp only: if_False)
  have url: "Host url = []" "Opaque url = []" "Fragment url = []"
    by (simp_all add: url_def emptyURL_def)
  have shape: "Opaque v = [] \<and> Fragment v = [] \<and> parseHost auth = Some (Host v) \<and> Path v = path"
  proof (cases "\<not> HasPrefix rest ''/'' \<and> go_ToLower scheme0 \<noteq> []")
    case True
    then have "v = url\<lparr>Opaque := rest\<rparr>"
      using assms(1) body by simp
    then show ?thesis using assms(2) url by simp
  next
    case c1: False
    show ?thesis
    proof (cases "\<not> HasPrefix rest ''/'' \<and> Contains (fst (Cut rest (CHR ''/''))) '':''")
      case True
      then show ?thesis using assms(1) body c1 by simp
    next
      case c2: False
      show ?thesis
      proof (cases "(go_ToLower scheme0 \<noteq> [] \<or> \<not> HasPrefix rest ''///'') \<and> HasPrefix rest ''//''")
        case True
        then have "(case parseHost auth of None \<Rightarrow> None
            | Some host \<Rightarrow> Some (url\<lparr>Host := host, Path := path\<rparr>)) = Some v"
          using assms(1) body c1 c2 by simp
        then obtain host where "parseHost auth = Some host" "v = url\<lparr>Host := host, Path := path\<rparr>"
          by (cases "parseHost auth") auto
        then show ?thesis using url by simp
      next
        case c3: False
        then have "v = url\<lparr>OmitHost := True, Path := rest\<rparr> \<or> v = url\<lparr>Path := rest\<rparr>"
          using assms(1) body c1 c2 by (simp split: if_splits)
        then show ?thesis using assms(2) url by auto
      qed
    qed
  qed
  then have host: "Host v = auth"
    using parseHost_Some by blast
  have auth_sub: "set auth \<subseteq> set rest" "set path \<subseteq> set rest"
    by (auto simp: auth_def path_def dest: set_takeWhileD set_dropWhileD in_set_dropD)
  have auth_sl: "CHR ''/'' \<notin> set auth"
    by (auto simp: auth_def dest: set_takeWhileD)
  have path_hd: "path = [] \<or> hd path = CHR ''/''"
    using hd_dropWhile [of "\<lambda>c. c \<noteq> CHR ''/''" "drop 2 rest"] by (auto simp: path_def)
  show ?thesis
    using shape host auth_sub auth_sl path_hd rest_q rest_sub rest0 nctl by auto
qed

lemma go_Parse_host:
  assumes "go_Parse u = Some v" and "Host v \<noteq> []"
  shows "Opaque v = []
     \<and> CHR ''/'' \<notin> set (Host v) \<and> CHR ''?'' \<notin> set (Host v) \<and> CHR ''#'' \<notin> set (Host v)
     \<and> CHR ''?'' \<notin> set (Path v) \<and> CHR ''#'' \<notin> set (Path v)
     \<and> parseHost (Host v) = Some (Host v)
     \<and> (Path v = [] \<or> hd (Path v) = CHR ''/'')
     \<and> \<not> stringContainsCTLByte (Host v) \<and> \<not> stringContainsCTLByte (Path v)"
proof -
  let ?x = "fst (Cut u (CHR ''#''))"
  obtain v0 where p: "go_parse ?x = Some v0" and same: "Host v = Host v0" "Path v = Path v0"
    "Opaque v = Opaque v0"
    using assms(1) by (auto simp: go_Parse_def Let_def split: option.splits if_splits)
  have nohash: "CHR ''#'' \<notin> set ?x"
    by (auto simp: Cut_def dest: set_takeWhileD)
  from go_parse_host [OF p] assms(2) same
  have facts: "Opaque v0 = []" "CHR ''/'' \<notin> set (Host v0)" "CHR ''?'' \<notin> set (Host v0)"
    "CHR ''?'' \<notin> set (Path v0)" "set (Host v0) \<subseteq> set ?x" "set (Path v0) \<subseteq> set ?x"
    "parseHost (Host v0) = Some (Host v0)" "Path v0 = [] \<or> hd (Path v0) = CHR ''/''"
    "\<not> stringContainsCTLByte ?x"
    by simp_all
  have "\<not> stringContainsCTLByte (Host v0)" "\<not> stringContainsCTLByte (Path v0)"
    using facts(5,6,9) CTL_subset by blast+
  then show ?thesis
    using facts nohash same by auto
qed


lemma normPath_clean:
  assumes "CHR ''?'' \<notin> set p" and "CHR ''#'' \<notin> set p" and "\<not> stringContainsCTLByte p"
  shows "CHR ''?'' \<notin> set (normPath p)" and "CHR ''#'' \<notin> set (normPath p)"
    and "\<not> stringContainsCTLByte (normPath p)"
proof -
  have sub: "set (normPath p) \<subseteq> insert (CHR ''/'') (set p)"
    by (rule normPath_set)
  show "CHR ''?'' \<notin> set (normPath p)" "CHR ''#'' \<notin> set (normPath p)"
    using sub assms(1,2) by auto
  have "\<not> stringContainsCTLByte (CHR ''/'' # p)"
    using assms(3) by (simp add: CTL_Cons)
  moreover have "set (normPath p) \<subseteq> set (CHR ''/'' # p)"
    using sub by simp
  ultimately show "\<not> stringContainsCTLByte (normPath p)"
    by (rule CTL_subset)
qed

text \<open>
  Where a second application of \<open>NormalizeURL\<close> changes the result. For a plain URL
  that parses with scheme \<open>http\<close> or \<open>https\<close> and a host, normalizing twice gives
  the same as normalizing once exactly when the path does not end in two slashes (the
  path \<open>//\<close> itself excepted, which normalizes to \<open>/\<close>): \<open>TrimSuffix\<close> removes
  one trailing slash per application.
\<close>

lemma NormalizeURL_twice_iff:
  assumes "plain u" and "url_Parse go_stdlib u = Some v"
    and "Scheme v = ''http'' \<or> Scheme v = ''https''" and "Host v \<noteq> []"
  shows "(NormalizeURL go_stdlib (NormalizeURL go_stdlib u) = NormalizeURL go_stdlib u)
     = (\<not> (suffix ''//'' (Path v) \<and> Path v \<noteq> ''//''))"
proof -
  let ?q = "if ForceQuery v then ''?'' else []"
  let ?P = "normPath (Path v)"
  let ?w = "emptyURL\<lparr>Scheme := Scheme v, ForceQuery := ForceQuery v, RawQuery := [],
      Host := Host v, Path := ?P\<rparr>"
  have parse: "go_Parse u = Some v"
    using assms(2) by (simp add: go_stdlib_def)
  from go_Parse_host [OF parse assms(4)]
  have v: "Opaque v = []" "CHR ''/'' \<notin> set (Host v)" "CHR ''?'' \<notin> set (Host v)"
    "CHR ''#'' \<notin> set (Host v)" "CHR ''?'' \<notin> set (Path v)" "CHR ''#'' \<notin> set (Path v)"
    "parseHost (Host v) = Some (Host v)" "Path v = [] \<or> hd (Path v) = CHR ''/''"
    "\<not> stringContainsCTLByte (Host v)" "\<not> stringContainsCTLByte (Path v)"
    by simp_all
  have sch: "Scheme v \<noteq> []"
    using assms(3) by auto
  have hdP: "hd ?P = CHR ''/''"
    using v(8) by (rule normPath_hd)
  have once: "NormalizeURL go_stdlib u = Scheme v @ ''://'' @ Host v @ ?P @ ?q"
    using NormalizeURL_parsed [OF assms(2)] go_String_web [OF sch assms(4) v(1) normPath_nonempty hdP]
    by (simp add: go_stdlib_def)
  have reparse: "url_Parse go_stdlib (Scheme v @ ''://'' @ Host v @ ?P @ ?q) = Some ?w"
    using go_Parse_web [OF assms(3,4) v(2,3,4,7,9) normPath_nonempty hdP
        normPath_clean [OF v(5,6,10)], of "ForceQuery v"]
    by (simp add: go_stdlib_def)
  have w: "Scheme ?w = Scheme v" "Host ?w = Host v" "Opaque ?w = []" "ForceQuery ?w = ForceQuery v"
    "Path ?w = ?P"
    by (simp_all add: emptyURL_def)
  have hdPP: "hd (normPath ?P) = CHR ''/''"
    using hdP by (intro normPath_hd) simp
  have "NormalizeURL go_stdlib (Scheme v @ ''://'' @ Host v @ ?P @ ?q)
      = url_String go_stdlib (?w\<lparr>Fragment := [], RawQuery := [], Path := normPath (Path ?w)\<rparr>)"
    by (rule NormalizeURL_parsed [OF reparse])
  also have "\<dots> = go_String (?w\<lparr>Fragment := [], RawQuery := [], Path := normPath ?P\<rparr>)"
    by (simp add: go_stdlib_def)
  also have "\<dots> = Scheme ?w @ ''://'' @ Host ?w @ normPath ?P @ (if ForceQuery ?w then ''?'' else [])"
    using sch assms(4) hdPP by (intro go_String_web) (simp_all add: emptyURL_def)
  finally have "NormalizeURL go_stdlib (Scheme v @ ''://'' @ Host v @ ?P @ ?q)
      = Scheme v @ ''://'' @ Host v @ normPath ?P @ ?q"
    unfolding w .
  then have "(NormalizeURL go_stdlib (NormalizeURL go_stdlib u) = NormalizeURL go_stdlib u)
      = (normPath ?P = ?P)"
    unfolding once by simp
  then show ?thesis
    by (simp only: normPath_idem_iff)
qed

text \<open>
  Claim C9. \<open>NormalizeURL\<close> is meant to be idempotent. It is not:
  \<open>http://a.com/x//\<close> normalizes to \<open>http://a.com/x/\<close>, which still ends in a
  slash and normalizes to \<open>http://a.com/x\<close>. The crawl therefore keeps
  \<open>http://a.com/x/\<close> and \<open>http://a.com/x//\<close> apart: linked from the start page,
  both are captured.
\<close>

theorem C9_normalize_twice_differs:
  "NormalizeURL go_stdlib ''http://a.com/x//'' = ''http://a.com/x/''
   \<and> NormalizeURL go_stdlib (NormalizeURL go_stdlib ''http://a.com/x//'') = ''http://a.com/x''
   \<and> NormalizeURL go_stdlib (NormalizeURL go_stdlib ''http://a.com/x//'')
       \<noteq> NormalizeURL go_stdlib ''http://a.com/x//''
   \<and> NormalizeURL go_stdlib ''http://a.com/x/'' = ''http://a.com/x''
   \<and> dispatched (runSequentialCrawl 4 go_stdlib (siteBrowser slashSite) (demoApp ''http://a.com'' 0))
       = [(''http://a.com'', 0), (''http://a.com/x/'', 1), (''http://a.com/x//'', 1)]"
  by code_simp

end
